theory Spec2Isabelle
  imports Main "HOL-Library.AList" "HOL-Library.Sublist"
begin

section \<open>Data model (types.ts, vision-broadcaster.ts)\<close>

text \<open>
  JavaScript numbers that hold clock readings and sizes are integers here. A WebSocket
  object is known by its identity, a natural number. A \<open>Map\<close> keeps insertion order, so
  it is an association list: \<open>Map.set\<close> is \<open>AList.update\<close> (an existing key keeps its
  place, a new key goes last), \<open>Map.delete\<close> is \<open>AList.delete\<close>, \<open>Map.get\<close> is \<open>map_of\<close>.
  A handler runs to its end without the clock moving: its parameter \<open>now\<close> is what every
  \<open>Date.now()\<close> of that run returns.
\<close>

type_synonym ws = nat
type_synonym addr = nat

text \<open>A socket the server accepted is never CONNECTING: it is handed over OPEN.\<close>

datatype readyState = OPEN | CLOSING | CLOSED

record StreamFrame =
  f_timestamp :: int
  imageBase64 :: string
  format :: string
  width :: int
  height :: int
  summary :: "string option"

record ChatMessage =
  m_timestamp :: int
  username :: string
  displayName :: string
  message :: string
  channel :: string
  isMod :: bool
  isSubscriber :: bool
  badges :: "(string \<times> string) list"

record TranscriptMessage =
  t_text :: string
  t_timestamp :: int

record ClawParticipant =
  p_id :: string
  p_name :: string
  sessionId :: string
  joinedAt :: int
  lastSeen :: int
  ipAddress :: string
  isLocal :: bool

record ConnectedClaw =
  ws :: ws
  participant :: ClawParticipant

record StreamState =
  isLive :: bool
  st_currentFrame :: "StreamFrame option"
  st_recentChat :: "ChatMessage list"
  participants :: "ClawParticipant list"
  st_streamStartedAt :: "int option"

datatype claw_kind = KChat | KReaction | KObservation

record ClawMessage =
  cm_type :: claw_kind
  content :: string
  clawId :: string
  clawName :: string
  cm_timestamp :: int

datatype broadcast_type = TFrame | TChat | TState | TTranscript

datatype payload =
    PFrame StreamFrame
  | PChat ChatMessage
  | PState StreamState
  | PTranscript TranscriptMessage

record VisionBroadcast =
  b_type :: broadcast_type
  payload :: payload
  b_timestamp :: int

text \<open>What \<open>ws.send\<close> is given: a serialized broadcast, or the reply to a ping.\<close>

datatype wire = Broadcast VisionBroadcast | Pong int

record ClawMetrics =
  totalConnections :: nat
  localConnections :: nat
  foreignConnections :: nat
  uniqueIPs :: "string list"
  m_connectionsByIP :: "(string \<times> nat) list"

text \<open>The parsed inbound message; a field that is absent is \<open>None\<close>.\<close>

record Inbound =
  in_type :: string
  in_clawId :: "string option"
  in_clawName :: "string option"
  in_sessionId :: "string option"
  in_content :: "string option"

section \<open>Frame summarizer (frame-summarizer.ts)\<close>

record FrameSummarizer =
  anthropic :: bool
  enabled :: bool
  isSummarizing :: bool
  lastSummary :: string

datatype ContentBlock = TextBlock string | OtherBlock

datatype describer_error = DescriberError

text \<open>
  \<open>summarizeFrame\<close> is an async function with one await. Its run up to the await is
  \<open>summarizeFrame\<close>: the promise is either settled at once (\<open>Resolved\<close>) or waits for
  the describer request it has just sent (\<open>Awaiting\<close>). Its run after the await is
  \<open>summarizeFrame_resume\<close>, given the outcome of the request: the response's content
  blocks, or the error the await raises. The result is a sum so that a rejected promise
  would be a value; the catch block makes every result \<open>Inr\<close>.
\<close>

datatype summarize_result = Resolved string | Awaiting

definition isEnabled :: "FrameSummarizer \<Rightarrow> bool" where
  "isEnabled fs = enabled fs"

definition summarizeFrame :: "FrameSummarizer \<Rightarrow> summarize_result \<times> FrameSummarizer" where
  "summarizeFrame fs =
     (if \<not> enabled fs \<or> \<not> anthropic fs then (Resolved '''', fs)
      else if isSummarizing fs then (Resolved (lastSummary fs), fs)
      else (Awaiting, fs\<lparr>isSummarizing := True\<rparr>))"

fun first_text :: "ContentBlock list \<Rightarrow> string" where
  "first_text [] = ''''"
| "first_text (TextBlock t # bs) = t"
| "first_text (OtherBlock # bs) = first_text bs"

definition summarizeFrame_resume ::
  "describer_error + ContentBlock list \<Rightarrow> FrameSummarizer
     \<Rightarrow> (describer_error + string) \<times> FrameSummarizer" where
  "summarizeFrame_resume outcome fs =
     (case outcome of
        Inr blocks \<Rightarrow>
          (let summ = first_text blocks
           in (Inr summ, fs\<lparr>lastSummary := summ, isSummarizing := False\<rparr>))
      | Inl err \<Rightarrow> (Inr (lastSummary fs), fs\<lparr>isSummarizing := False\<rparr>))"

definition new_FrameSummarizer :: "bool \<Rightarrow> FrameSummarizer" where
  "new_FrameSummarizer apiKey =
     \<lparr>anthropic = apiKey, enabled = apiKey, isSummarizing = False, lastSummary = ''''\<rparr>"

section \<open>Broadcast hub (vision-broadcaster.ts)\<close>

text \<open>
  The hub's fields, and after them what the hub acts on: each socket's \<open>readyState\<close>,
  the log of \<open>ws.send\<close> calls (\<open>sent\<close>), the frame objects by address (\<open>heap\<close>; the hub
  keeps a reference to the frame it is given), the frame whose summary is awaited
  (\<open>awaiting\<close>, the closure of the pending \<open>then\<close>), and the log of handler calls.
\<close>

record Hub =
  connectedClaws :: "(string \<times> ConnectedClaw) list"
  pendingConnections :: "(ws \<times> string) list"
  recentChat :: "ChatMessage list"
  currentFrame :: "addr option"
  streamStartedAt :: "int option"
  clawMessageHandlers :: "nat list"
  maxChatHistory :: nat
  totalConnectionsEver :: nat
  connectionsByIP :: "(string \<times> nat) list"
  frameSummarizer :: FrameSummarizer
  readyState :: "ws \<Rightarrow> readyState"
  sent :: "(ws \<times> wire) list"
  heap :: "addr \<Rightarrow> StreamFrame"
  awaiting :: "addr option"
  handled :: "(nat \<times> ClawMessage) list"

definition LOCAL_IPS :: "string list" where
  "LOCAL_IPS = [''127.0.0.1'', ''::1'', ''localhost'', ''::ffff:127.0.0.1'']"

definition is_local :: "string \<Rightarrow> bool" where
  "is_local ip = (ip \<in> set LOCAL_IPS \<or> prefix ''192.168.'' ip \<or> prefix ''10.'' ip)"

text \<open>\<open>Array.prototype.slice(k)\<close> with one argument.\<close>

definition slice_from :: "int \<Rightarrow> 'a list \<Rightarrow> 'a list" where
  "slice_from k xs =
     (let n = int (length xs);
          start = (if k < 0 then max (n + k) 0 else min k n)
      in drop (nat start) xs)"

text \<open>\<open>[...new Set(xs)]\<close>: the first occurrence of each element, in order.\<close>

fun dedupe :: "'a list \<Rightarrow> 'a list \<Rightarrow> 'a list" where
  "dedupe seen [] = seen"
| "dedupe seen (x # xs) = (if x \<in> set seen then dedupe seen xs else dedupe (seen @ [x]) xs)"

text \<open>The \<open>ws\<close> library's send: written out on an OPEN socket, dropped after close.\<close>

definition ws_send :: "ws \<Rightarrow> wire \<Rightarrow> Hub \<Rightarrow> Hub" where
  "ws_send s m h = (if readyState h s = OPEN then h\<lparr>sent := sent h @ [(s, m)]\<rparr> else h)"

definition getStreamState :: "Hub \<Rightarrow> StreamState" where
  "getStreamState h =
     \<lparr>isLive = (streamStartedAt h \<noteq> None),
      st_currentFrame = map_option (heap h) (currentFrame h),
      st_recentChat = slice_from (- 20) (recentChat h),
      participants = map (\<lambda>c. participant (snd c)) (connectedClaws h),
      st_streamStartedAt = streamStartedAt h\<rparr>"

text \<open>
  The fan-out loop over the registry's entries. Deleting the entry being visited does
  not disturb a JavaScript Map iteration, so the loop runs over the entries as they
  were when it started.
\<close>

fun broadcast_loop :: "(string \<times> ConnectedClaw) list \<Rightarrow> VisionBroadcast \<Rightarrow> Hub \<Rightarrow> Hub" where
  "broadcast_loop [] m h = h"
| "broadcast_loop (e # es) m h =
     (if readyState h (ws (snd e)) = OPEN
      then broadcast_loop es m (ws_send (ws (snd e)) (Broadcast m) h)
      else broadcast_loop es m (h\<lparr>connectedClaws := AList.delete (fst e) (connectedClaws h)\<rparr>))"

definition broadcast :: "VisionBroadcast \<Rightarrow> Hub \<Rightarrow> Hub" where
  "broadcast m h = broadcast_loop (connectedClaws h) m h"

definition broadcastState :: "int \<Rightarrow> Hub \<Rightarrow> Hub" where
  "broadcastState now h =
     broadcast \<lparr>b_type = TState, payload = PState (getStreamState h), b_timestamp = now\<rparr> h"

text \<open>\<open>!x\<close> on a number or null: true for null and for 0.\<close>

definition falsy_num :: "int option \<Rightarrow> bool" where
  "falsy_num t = (t = None \<or> t = Some 0)"

definition setStreamLive :: "bool \<Rightarrow> int \<Rightarrow> Hub \<Rightarrow> Hub" where
  "setStreamLive live now h =
     broadcastState now
       (if live \<and> falsy_num (streamStartedAt h) then h\<lparr>streamStartedAt := Some now\<rparr>
        else if \<not> live \<and> \<not> falsy_num (streamStartedAt h) then h\<lparr>streamStartedAt := None\<rparr>
        else h)"

definition broadcastChatMessage :: "ChatMessage \<Rightarrow> int \<Rightarrow> Hub \<Rightarrow> Hub" where
  "broadcastChatMessage chatMessage now h =
     (let pushed = recentChat h @ [chatMessage];
          kept = (if length pushed > maxChatHistory h then tl pushed else pushed)
      in broadcast \<lparr>b_type = TChat, payload = PChat chatMessage, b_timestamp = now\<rparr>
           (h\<lparr>recentChat := kept\<rparr>))"

definition broadcastTranscript :: "TranscriptMessage \<Rightarrow> int \<Rightarrow> Hub \<Rightarrow> Hub" where
  "broadcastTranscript transcript now h =
     broadcast \<lparr>b_type = TTranscript, payload = PTranscript transcript, b_timestamp = now\<rparr> h"

text \<open>
  The callback \<open>broadcastFrame\<close> hands to \<open>then\<close>: a non-empty summary is written onto
  the frame object, and the frame is fanned out as it then is.
\<close>

definition frame_summarized :: "addr \<Rightarrow> string \<Rightarrow> int \<Rightarrow> Hub \<Rightarrow> Hub" where
  "frame_summarized a summ now h =
     (let h1 = (if summ \<noteq> '''' then h\<lparr>heap := (heap h)(a := (heap h a)\<lparr>summary := Some summ\<rparr>)\<rparr>
                else h)
      in broadcast \<lparr>b_type = TFrame, payload = PFrame (heap h1 a), b_timestamp = now\<rparr> h1)"

text \<open>
  \<open>broadcastFrame\<close> up to its return. With the summarizer enabled the wire broadcast is
  left to the \<open>then\<close> callback: \<open>awaiting\<close> records the frame when the describer request
  is pending; a promise that is already settled runs the callback before any other
  event is handled, so it is run here.
\<close>

definition broadcastFrame :: "addr \<Rightarrow> int \<Rightarrow> Hub \<Rightarrow> Hub" where
  "broadcastFrame a now h =
     (let h1 = h\<lparr>currentFrame := Some a\<rparr>
      in if isEnabled (frameSummarizer h1)
         then (case summarizeFrame (frameSummarizer h1) of
                 (Resolved summ, fs) \<Rightarrow> frame_summarized a summ now (h1\<lparr>frameSummarizer := fs\<rparr>)
               | (Awaiting, fs) \<Rightarrow> h1\<lparr>frameSummarizer := fs, awaiting := Some a\<rparr>)
         else broadcast \<lparr>b_type = TFrame, payload = PFrame (heap h1 a), b_timestamp = now\<rparr> h1)"

text \<open>
  The describer request settles: the async function resumes, then the callback runs.
  Nothing settles when no request is pending.
\<close>

definition describer_settled :: "describer_error + ContentBlock list \<Rightarrow> int \<Rightarrow> Hub \<Rightarrow> Hub" where
  "describer_settled outcome now h =
     (case awaiting h of
        None \<Rightarrow> h
      | Some a \<Rightarrow>
          (case summarizeFrame_resume outcome (frameSummarizer h) of
             (Inr summ, fs) \<Rightarrow>
               frame_summarized a summ now (h\<lparr>frameSummarizer := fs, awaiting := None\<rparr>)
           | (Inl err, fs) \<Rightarrow> h\<lparr>frameSummarizer := fs, awaiting := None\<rparr>))"

text \<open>
  The \<open>connection\<close> handler of the WebSocket server. The socket it is given is a new
  object and is OPEN; \<open>ip\<close> is the address the handler derives from the request.
\<close>

definition on_connection :: "ws \<Rightarrow> string \<Rightarrow> int \<Rightarrow> Hub \<Rightarrow> Hub" where
  "on_connection s ip now h =
     (let h1 = h\<lparr>readyState := (readyState h)(s := OPEN)\<rparr>;
          h2 = h1\<lparr>pendingConnections := AList.update s ip (pendingConnections h1),
                  totalConnectionsEver := totalConnectionsEver h1 + 1,
                  connectionsByIP :=
                    AList.update ip
                      ((case map_of (connectionsByIP h1) ip of None \<Rightarrow> 0 | Some n \<Rightarrow> n) + 1)
                      (connectionsByIP h1)\<rparr>
      in ws_send s
           (Broadcast \<lparr>b_type = TState, payload = PState (getStreamState h2), b_timestamp = now\<rparr>)
           h2)"

text \<open>\<open>!s\<close> on an optional string: true when it is absent or empty.\<close>

definition falsy_str :: "string option \<Rightarrow> bool" where
  "falsy_str v = (v = None \<or> v = Some '''')"

definition or_else :: "'a option \<Rightarrow> 'a \<Rightarrow> 'a" where
  "or_else v d = (case v of None \<Rightarrow> d | Some x \<Rightarrow> x)"

fun call_handlers :: "nat list \<Rightarrow> ClawMessage \<Rightarrow> Hub \<Rightarrow> Hub" where
  "call_handlers [] cm h = h"
| "call_handlers (k # ks) cm h = call_handlers ks cm (h\<lparr>handled := handled h @ [(k, cm)]\<rparr>)"

fun touch :: "ws \<Rightarrow> int \<Rightarrow> (string \<times> ConnectedClaw) list \<Rightarrow> (string \<times> ConnectedClaw) list" where
  "touch s now [] = []"
| "touch s now (e # es) =
     (if ws (snd e) = s
      then (fst e, (snd e)\<lparr>participant := (participant (snd e))\<lparr>lastSeen := now\<rparr>\<rparr>) # es
      else e # touch s now es)"

definition claw_kind_of :: "string \<Rightarrow> claw_kind" where
  "claw_kind_of t = (if t = ''chat'' then KChat else if t = ''reaction'' then KReaction
                     else KObservation)"

text \<open>\<open>handleClawMessage\<close>; \<open>None\<close> is a payload that \<open>JSON.parse\<close> rejects.\<close>

definition handleClawMessage :: "ws \<Rightarrow> Inbound option \<Rightarrow> int \<Rightarrow> Hub \<Rightarrow> Hub" where
  "handleClawMessage s parsed now h =
     (case parsed of
        None \<Rightarrow> h
      | Some msg \<Rightarrow>
          if in_type msg = ''register'' then
            (if falsy_str (in_clawId msg) \<or> falsy_str (in_clawName msg) then h
             else
               (let ip = or_else (map_of (pendingConnections h) s) ''unknown'';
                    h1 = h\<lparr>pendingConnections := AList.delete s (pendingConnections h)\<rparr>;
                    p = \<lparr>p_id = the (in_clawId msg), p_name = the (in_clawName msg),
                         sessionId = or_else (in_sessionId msg) '''',
                         joinedAt = now, lastSeen = now,
                         ipAddress = ip, isLocal = is_local ip\<rparr>;
                    h2 = h1\<lparr>connectedClaws :=
                              AList.update (the (in_clawId msg)) \<lparr>ws = s, participant = p\<rparr>
                                (connectedClaws h1)\<rparr>
                in broadcastState now h2))
          else if in_type msg = ''chat'' \<or> in_type msg = ''reaction''
                  \<or> in_type msg = ''observation'' then
            call_handlers (clawMessageHandlers h)
              \<lparr>cm_type = claw_kind_of (in_type msg),
               content = or_else (in_content msg) '''',
               clawId = or_else (in_clawId msg) '''',
               clawName = or_else (in_clawName msg) ''Unknown Claw'',
               cm_timestamp = now\<rparr> h
          else if in_type msg = ''ping'' then
            ws_send s (Pong now) (h\<lparr>connectedClaws := touch s now (connectedClaws h)\<rparr>)
          else h)"

definition handleClawDisconnect :: "ws \<Rightarrow> int \<Rightarrow> Hub \<Rightarrow> Hub" where
  "handleClawDisconnect s now h =
     (case find (\<lambda>e. ws (snd e) = s) (connectedClaws h) of
        None \<Rightarrow> h
      | Some e \<Rightarrow> broadcastState now (h\<lparr>connectedClaws := AList.delete (fst e) (connectedClaws h)\<rparr>))"

text \<open>The socket's \<open>close\<close> event: the library has set it CLOSED when the handler runs.\<close>

definition on_close :: "ws \<Rightarrow> int \<Rightarrow> Hub \<Rightarrow> Hub" where
  "on_close s now h = handleClawDisconnect s now (h\<lparr>readyState := (readyState h)(s := CLOSED)\<rparr>)"

definition getConnectedClaws :: "Hub \<Rightarrow> ClawParticipant list" where
  "getConnectedClaws h = map (\<lambda>c. participant (snd c)) (connectedClaws h)"

definition getMetrics :: "Hub \<Rightarrow> ClawMetrics" where
  "getMetrics h =
     (let ps = getConnectedClaws h
      in \<lparr>totalConnections = totalConnectionsEver h,
          localConnections = length (filter isLocal ps),
          foreignConnections = length (filter (\<lambda>p. \<not> isLocal p) ps),
          uniqueIPs = dedupe [] (map ipAddress ps),
          m_connectionsByIP = connectionsByIP h\<rparr>)"

text \<open>The \<open>/frame\<close> endpoint: the current frame as it is when asked, or 404.\<close>

definition get_frame :: "Hub \<Rightarrow> StreamFrame option" where
  "get_frame h = map_option (heap h) (currentFrame h)"

definition new_VisionBroadcaster :: "bool \<Rightarrow> nat list \<Rightarrow> (addr \<Rightarrow> StreamFrame) \<Rightarrow> Hub" where
  "new_VisionBroadcaster apiKey handlers frames =
     \<lparr>connectedClaws = [], pendingConnections = [], recentChat = [], currentFrame = None,
      streamStartedAt = None, clawMessageHandlers = handlers, maxChatHistory = 100,
      totalConnectionsEver = 0, connectionsByIP = [],
      frameSummarizer = new_FrameSummarizer apiKey,
      readyState = (\<lambda>s. CLOSED), sent = [], heap = frames, awaiting = None, handled = []\<rparr>"

text \<open>
  Everything that can happen to the hub, one event at a time (the event loop runs each
  handler to completion). \<open>SocketClosing\<close> is the peer starting the closing handshake:
  the socket leaves OPEN before its \<open>close\<close> event is delivered.
\<close>

datatype event =
    Connection ws string int
  | Message ws "Inbound option" int
  | Close ws int
  | SocketClosing ws
  | SetStreamLive bool int
  | BroadcastFrame addr int
  | DescriberSettled "describer_error + ContentBlock list" int
  | BroadcastChat ChatMessage int
  | BroadcastTranscript TranscriptMessage int

fun step :: "event \<Rightarrow> Hub \<Rightarrow> Hub" where
  "step (Connection s ip now) h = on_connection s ip now h"
| "step (Message s parsed now) h = handleClawMessage s parsed now h"
| "step (Close s now) h = on_close s now h"
| "step (SocketClosing s) h = h\<lparr>readyState := (readyState h)(s := CLOSING)\<rparr>"
| "step (SetStreamLive live now) h = setStreamLive live now h"
| "step (BroadcastFrame a now) h = broadcastFrame a now h"
| "step (DescriberSettled outcome now) h = describer_settled outcome now h"
| "step (BroadcastChat c now) h = broadcastChatMessage c now h"
| "step (BroadcastTranscript t now) h = broadcastTranscript t now h"

fun run :: "event list \<Rightarrow> Hub \<Rightarrow> Hub" where
  "run [] h = h"
| "run (e # es) h = run es (step e h)"

section \<open>Notions the hub's properties are stated with\<close>

text \<open>An entry of the registry whose socket is OPEN, given the sockets' states.\<close>

definition is_open :: "(ws \<Rightarrow> readyState) \<Rightarrow> string \<times> ConnectedClaw \<Rightarrow> bool" where
  "is_open rs e = (rs (ws (snd e)) = OPEN)"

definition dead_ids :: "(ws \<Rightarrow> readyState) \<Rightarrow> (string \<times> ConnectedClaw) list \<Rightarrow> string list" where
  "dead_ids rs es = map fst (filter (\<lambda>e. \<not> is_open rs e) es)"

text \<open>One message written to every entry of a list, in order.\<close>

definition fanout :: "(string \<times> ConnectedClaw) list \<Rightarrow> VisionBroadcast \<Rightarrow> (ws \<times> wire) list" where
  "fanout es m = map (\<lambda>e. (ws (snd e), Broadcast m)) es"

definition subscribers :: "Hub \<Rightarrow> (string \<times> ConnectedClaw) list" where
  "subscribers h = filter (is_open (readyState h)) (connectedClaws h)"

fun chats_of :: "event list \<Rightarrow> ChatMessage list" where
  "chats_of [] = []"
| "chats_of (BroadcastChat c now # evs) = c # chats_of evs"
| "chats_of (ev # evs) = chats_of evs"

fun is_state :: "wire \<Rightarrow> bool" where
  "is_state (Broadcast m) = (b_type m = TState)"
| "is_state (Pong t) = False"

definition state_broadcasts_to :: "ws \<Rightarrow> (ws \<times> wire) list \<Rightarrow> (ws \<times> wire) list" where
  "state_broadcasts_to s log = filter (\<lambda>x. fst x = s \<and> is_state (snd x)) log"

text \<open>Reading one address's count off the metrics object; an absent key counts 0.\<close>

definition count_of :: "(string \<times> nat) list \<Rightarrow> string \<Rightarrow> nat" where
  "count_of m ip = or_else (map_of m ip) 0"

subsection \<open>Example inputs\<close>

definition ex_frame :: StreamFrame where
  "ex_frame = \<lparr>f_timestamp = 5, imageBase64 = ''iVBOR'', format = ''png'', width = 1280,
                height = 720, summary = None\<rparr>"

definition ex_register :: "string \<Rightarrow> string \<Rightarrow> Inbound option" where
  "ex_register cid cname =
     Some \<lparr>in_type = ''register'', in_clawId = Some cid, in_clawName = Some cname,
           in_sessionId = None, in_content = None\<rparr>"

definition ex_hub :: Hub where
  "ex_hub = new_VisionBroadcaster False [] (\<lambda>a. ex_frame)"

definition ex_one_subscriber :: Hub where
  "ex_one_subscriber =
     run [Connection 7 ''127.0.0.1'' 10, Message 7 (ex_register ''a'' ''A'') 11] ex_hub"

definition ex_chat :: "nat \<Rightarrow> ChatMessage" where
  "ex_chat i = \<lparr>m_timestamp = int i, username = ''viewer'', displayName = ''Viewer'',
                message = ''hi'', channel = ''#claw'', isMod = False, isSubscriber = False,
                badges = []\<rparr>"

subsection \<open>Who is sent what\<close>

fun broadcasts_to :: "ws \<Rightarrow> (ws \<times> wire) list \<Rightarrow> VisionBroadcast list" where
  "broadcasts_to s [] = []"
| "broadcasts_to s ((r, Broadcast m) # xs) =
     (if r = s then m # broadcasts_to s xs else broadcasts_to s xs)"
| "broadcasts_to s ((r, Pong t) # xs) = broadcasts_to s xs"

fun pongs_to :: "ws \<Rightarrow> (ws \<times> wire) list \<Rightarrow> int list" where
  "pongs_to s [] = []"
| "pongs_to s ((r, Pong t) # xs) = (if r = s then t # pongs_to s xs else pongs_to s xs)"
| "pongs_to s ((r, Broadcast m) # xs) = pongs_to s xs"

text \<open>The event is a register message on socket \<open>s\<close> that the hub accepts.\<close>

fun registers :: "ws \<Rightarrow> event \<Rightarrow> bool" where
  "registers s (Message r (Some msg) now) =
     (r = s \<and> in_type msg = ''register'' \<and> \<not> falsy_str (in_clawId msg)
      \<and> \<not> falsy_str (in_clawName msg))"
| "registers s ev = False"

fun connects :: "ws \<Rightarrow> event \<Rightarrow> bool" where
  "connects s (Connection r ip now) = (r = s)"
| "connects s ev = False"

fun closes :: "ws \<Rightarrow> event \<Rightarrow> bool" where
  "closes s (Close r now) = (r = s)"
| "closes s (SocketClosing r) = (r = s)"
| "closes s ev = False"

text \<open>The clock readings of the pings received on socket \<open>s\<close>.\<close>

fun pings_of :: "ws \<Rightarrow> event list \<Rightarrow> int list" where
  "pings_of s [] = []"
| "pings_of s (Message r (Some msg) now # evs) =
     (if r = s \<and> in_type msg = ''ping'' then now # pings_of s evs else pings_of s evs)"
| "pings_of s (ev # evs) = pings_of s evs"

definition registered_ws :: "Hub \<Rightarrow> ws list" where
  "registered_ws h = map (\<lambda>e. ws (snd e)) (connectedClaws h)"

text \<open>No entry of the registry is bound to socket \<open>s\<close>.\<close>

definition unbound :: "ws \<Rightarrow> Hub \<Rightarrow> bool" where
  "unbound s h = (s \<notin> set (registered_ws h))"

text \<open>The open sockets that hold an entry of the registry, each once.\<close>

definition open_registered :: "Hub \<Rightarrow> ws list" where
  "open_registered h = remdups (filter (\<lambda>s. readyState h s = OPEN) (registered_ws h))"

text \<open>Every register message of the event names the id \<open>idOf\<close> gives its socket.\<close>

fun keeps_id :: "(ws \<Rightarrow> string) \<Rightarrow> event \<Rightarrow> bool" where
  "keeps_id idOf (Message s (Some msg) now) =
     (if in_type msg = ''register'' then in_clawId msg = Some (idOf s) else True)"
| "keeps_id idOf ev = True"

text \<open>Events that leave the current frame and the summarizer alone.\<close>

fun quiet :: "event \<Rightarrow> bool" where
  "quiet (BroadcastFrame a now) = False"
| "quiet (DescriberSettled outcome now) = False"
| "quiet ev = True"

definition ex_ping :: "Inbound option" where
  "ex_ping = Some \<lparr>in_type = ''ping'', in_clawId = None, in_clawName = None,
                   in_sessionId = None, in_content = None\<rparr>"

text \<open>The registry entry a register message on socket \<open>s\<close> creates.\<close>

definition new_claw :: "ws \<Rightarrow> Inbound \<Rightarrow> int \<Rightarrow> Hub \<Rightarrow> ConnectedClaw" where
  "new_claw s msg now h =
     (let ip = or_else (map_of (pendingConnections h) s) ''unknown''
      in \<lparr>ws = s,
          participant = \<lparr>p_id = the (in_clawId msg), p_name = the (in_clawName msg),
                          sessionId = or_else (in_sessionId msg) '''',
                          joinedAt = now, lastSeen = now,
                          ipAddress = ip, isLocal = is_local ip\<rparr>\<rparr>)"

definition accepted_register :: "Inbound \<Rightarrow> bool" where
  "accepted_register msg =
     (in_type msg = ''register'' \<and> \<not> falsy_str (in_clawId msg) \<and> \<not> falsy_str (in_clawName msg))"

definition ex_transcript :: TranscriptMessage where
  "ex_transcript = \<lparr>t_text = ''hello world'', t_timestamp = 23\<rparr>"

definition ex_traffic :: "event list" where
  "ex_traffic = [Message 8 ex_ping 20, BroadcastChat (ex_chat 0) 21, SetStreamLive True 22,
                 BroadcastTranscript ex_transcript 23, BroadcastFrame 0 24]"

text \<open>
  The registry as the handler of an event leaves it before any fan-out pass the handler
  ends with.
\<close>

fun registry_change :: "event \<Rightarrow> Hub \<Rightarrow> (string \<times> ConnectedClaw) list" where
  "registry_change (Message r (Some msg) now) h =
     (if accepted_register msg
      then AList.update (the (in_clawId msg)) (new_claw r msg now h) (connectedClaws h)
      else if in_type msg = ''ping'' then touch r now (connectedClaws h)
      else connectedClaws h)"
| "registry_change (Close r now) h =
     (case find (\<lambda>e. ws (snd e) = r) (connectedClaws h) of
        None \<Rightarrow> connectedClaws h
      | Some e \<Rightarrow> AList.delete (fst e) (connectedClaws h))"
| "registry_change ev h = connectedClaws h"

text \<open>Every entry is filed under the id \<open>idOf\<close> gives its socket.\<close>

definition filed_by :: "(ws \<Rightarrow> string) \<Rightarrow> (string \<times> ConnectedClaw) list \<Rightarrow> bool" where
  "filed_by idOf es = list_all (\<lambda>e. fst e = idOf (ws (snd e))) es"

definition ex_summarizing_hub :: Hub where
  "ex_summarizing_hub = new_VisionBroadcaster True [] (\<lambda>a. ex_frame)"

definition ex_two_ids :: Hub where
  "ex_two_ids =
     run [Connection 7 ''127.0.0.1'' 10, Message 7 (ex_register ''a'' ''A'') 11,
          Message 7 (ex_register ''b'' ''B'') 12] ex_hub"

definition ex_two_sockets :: "event list" where
  "ex_two_sockets =
     [Connection 7 ''127.0.0.1'' 10, Message 7 (ex_register ''a'' ''A'') 11,
      Connection 8 ''203.0.113.9'' 12, Message 8 (ex_register ''b'' ''B'') 13,
      SocketClosing 7]"

definition ex_message :: VisionBroadcast where
  "ex_message = \<lparr>b_type = TTranscript, payload = PTranscript ex_transcript, b_timestamp = 30\<rparr>"

text \<open>The event is a socket leaving OPEN with no handler of the hub run for it.\<close>

fun closing :: "event \<Rightarrow> bool" where
  "closing (SocketClosing r) = True"
| "closing ev = False"

text \<open>Every entry of the registry has an open socket.\<close>

definition all_open :: "Hub \<Rightarrow> bool" where
  "all_open h = list_all (is_open (readyState h)) (connectedClaws h)"

definition ex_two_open :: "event list" where
  "ex_two_open =
     [Connection 7 ''127.0.0.1'' 10, Message 7 (ex_register ''a'' ''A'') 11,
      Connection 8 ''203.0.113.9'' 12, Message 8 (ex_register ''b'' ''B'') 13,
      Close 7 14]"

section \<open>The summarizer over time\<close>

text \<open>
  What can happen to one summarizer: \<open>summarizeFrame\<close> is called, or the describer
  request that is pending settles. What is seen of it: a call whose promise is settled
  at once with a text, a call that sends a request, and a pending call that completes,
  with the outcome of its request and the result the caller gets.
\<close>

datatype summ_event = Call | Settle "describer_error + ContentBlock list"

datatype summ_obs =
    Immediate string
  | Sent
  | Completed "describer_error + ContentBlock list" "describer_error + string"

fun summ_step :: "summ_event \<Rightarrow> FrameSummarizer \<Rightarrow> summ_obs list \<times> FrameSummarizer" where
  "summ_step Call fs =
     (case summarizeFrame fs of
        (Resolved t, fs') \<Rightarrow> ([Immediate t], fs')
      | (Awaiting, fs') \<Rightarrow> ([Sent], fs'))"
| "summ_step (Settle outcome) fs =
     (if isSummarizing fs
      then (case summarizeFrame_resume outcome fs of (res, fs') \<Rightarrow> ([Completed outcome res], fs'))
      else ([], fs))"

fun summ_run :: "summ_event list \<Rightarrow> FrameSummarizer \<Rightarrow> summ_obs list \<times> FrameSummarizer" where
  "summ_run [] fs = ([], fs)"
| "summ_run (ev # evs) fs =
     (case summ_step ev fs of
        (obs, fs') \<Rightarrow> (case summ_run evs fs' of (obs', fs'') \<Rightarrow> (obs @ obs', fs'')))"

text \<open>
  The specification's reading of a log of an enabled summarizer, given whether a request
  is in flight and the last successful summary so far: a request is sent only when none
  is in flight; a call is answered at once only when one is, and then with the last
  successful summary; a request that succeeds gives its own text, which becomes the last
  successful summary; a request that fails gives the last successful summary, not an
  error.
\<close>

fun single_flight_fallback :: "bool \<Rightarrow> string \<Rightarrow> summ_obs list \<Rightarrow> bool" where
  "single_flight_fallback inflight good [] = True"
| "single_flight_fallback inflight good (Sent # os) =
     (\<not> inflight \<and> single_flight_fallback True good os)"
| "single_flight_fallback inflight good (Immediate t # os) =
     (inflight \<and> t = good \<and> single_flight_fallback inflight good os)"
| "single_flight_fallback inflight good (Completed (Inr blocks) res # os) =
     (inflight \<and> res = Inr (first_text blocks)
      \<and> single_flight_fallback False (first_text blocks) os)"
| "single_flight_fallback inflight good (Completed (Inl err) res # os) =
     (inflight \<and> res = Inr good \<and> single_flight_fallback False good os)"

definition ex_calls :: "summ_event list" where
  "ex_calls = [Call, Call, Settle (Inr [TextBlock ''A desk.'']), Call, Call,
               Settle (Inl DescriberError), Call]"

section \<open>Transcript coalescer (twitch-audio-capture.ts)\<close>

text \<open>
  The buffer fields of \<open>TwitchAudioCapture\<close> and what they act on: the timers the event
  loop has armed (handle and due time; \<open>setTimeout\<close> arms one, \<open>clearTimeout\<close> disarms
  it, firing disarms it and runs its callback), and the log of handler calls. A string is
  a list of code units below 256.
\<close>

record Coalescer =
  transcriptBuffer :: "string list"
  bufferTimeout :: "nat option"
  bufferStartTime :: int
  transcript_handlers :: "nat list"
  timers :: "(nat \<times> int) list"
  nextTimer :: nat
  emitted :: "(nat \<times> TranscriptMessage) list"

definition BUFFER_DELAY_MS :: int where
  "BUFFER_DELAY_MS = 1000"

definition MAX_BUFFER_TIME_MS :: int where
  "MAX_BUFFER_TIME_MS = 3000"

definition new_Coalescer :: "nat list \<Rightarrow> Coalescer" where
  "new_Coalescer hs =
     \<lparr>transcriptBuffer = [], bufferTimeout = None, bufferStartTime = 0,
      transcript_handlers = hs, timers = [], nextTimer = 0, emitted = []\<rparr>"

definition set_timeout :: "int \<Rightarrow> int \<Rightarrow> Coalescer \<Rightarrow> nat \<times> Coalescer" where
  "set_timeout delay now c =
     (nextTimer c, c\<lparr>timers := timers c @ [(nextTimer c, now + delay)],
                     nextTimer := nextTimer c + 1\<rparr>)"

definition clear_timeout :: "nat \<Rightarrow> Coalescer \<Rightarrow> Coalescer" where
  "clear_timeout t c = c\<lparr>timers := filter (\<lambda>x. fst x \<noteq> t) (timers c)\<rparr>"

text \<open>White space and line terminators of \<open>String.prototype.trim\<close>, below 256.\<close>

definition is_space :: "char \<Rightarrow> bool" where
  "is_space ch = ((of_char ch :: nat) \<in> {9, 10, 11, 12, 13, 32, 160})"

definition trim :: "string \<Rightarrow> string" where
  "trim s = rev (dropWhile is_space (rev (dropWhile is_space s)))"

text \<open>\<open>Array.prototype.join\<close>.\<close>

fun join :: "string \<Rightarrow> string list \<Rightarrow> string" where
  "join sep [] = ''''"
| "join sep [x] = x"
| "join sep (x # y # ys) = x @ sep @ join sep (y # ys)"

definition toLowerCase :: "string \<Rightarrow> string" where
  "toLowerCase s =
     map (\<lambda>ch. let n = (of_char ch :: nat)
               in if (65 \<le> n \<and> n \<le> 90) \<or> (192 \<le> n \<and> n \<le> 222 \<and> n \<noteq> 215)
                  then char_of (n + 32) else ch) s"

text \<open>\<open>String.prototype.includes\<close>.\<close>

fun includes_str :: "string \<Rightarrow> string \<Rightarrow> bool" where
  "includes_str [] sub = (sub = [])"
| "includes_str (ch # s) sub = (prefix sub (ch # s) \<or> includes_str s sub)"

definition isValidTranscript :: "string \<Rightarrow> bool" where
  "isValidTranscript txt =
     (let trimmed = trim txt
      in if length trimmed = 0 then False
         else let lowerText = toLowerCase trimmed;
                  obviousHallucinations =
                    [''thanks for watching'', ''thank you for watching'', ''subscribe'',
                     ''like and subscribe'']
              in if list_ex (includes_str lowerText) obviousHallucinations then False else True)"

fun call_transcript_handlers :: "nat list \<Rightarrow> TranscriptMessage \<Rightarrow> Coalescer \<Rightarrow> Coalescer" where
  "call_transcript_handlers [] t c = c"
| "call_transcript_handlers (k # ks) t c =
     call_transcript_handlers ks t (c\<lparr>emitted := emitted c @ [(k, t)]\<rparr>)"

definition flushBuffer :: "int \<Rightarrow> Coalescer \<Rightarrow> Coalescer" where
  "flushBuffer now c =
     (if length (transcriptBuffer c) = 0 then c
      else
        (let combinedText = trim (join '' '' (transcriptBuffer c));
             c1 = c\<lparr>transcriptBuffer := [], bufferTimeout := None\<rparr>
         in if length combinedText > 0
            then call_transcript_handlers (transcript_handlers c1)
                   \<lparr>t_text = combinedText, t_timestamp = now\<rparr> c1
            else c1))"

definition addToBuffer :: "string \<Rightarrow> int \<Rightarrow> Coalescer \<Rightarrow> Coalescer" where
  "addToBuffer txt now c =
     (let c1 = (if length (transcriptBuffer c) = 0 then c\<lparr>bufferStartTime := now\<rparr> else c);
          c2 = c1\<lparr>transcriptBuffer := transcriptBuffer c1 @ [txt]\<rparr>;
          bufferAge = now - bufferStartTime c2
      in if bufferAge \<ge> MAX_BUFFER_TIME_MS then flushBuffer now c2
         else
           (let c3 = (case bufferTimeout c2 of Some t \<Rightarrow> clear_timeout t c2 | None \<Rightarrow> c2)
            in case set_timeout BUFFER_DELAY_MS now c3 of
                 (t, c4) \<Rightarrow> c4\<lparr>bufferTimeout := Some t\<rparr>))"

text \<open>A timer fires: every timer this class arms on the buffer runs \<open>flushBuffer\<close>.\<close>

definition timer_fired :: "nat \<Rightarrow> int \<Rightarrow> Coalescer \<Rightarrow> Coalescer" where
  "timer_fired t now c =
     (if t \<in> fst ` set (timers c) then flushBuffer now (clear_timeout t c) else c)"

text \<open>What \<open>transcribeChunk\<close> does with the recognizer's response.\<close>

definition transcribed :: "string \<Rightarrow> int \<Rightarrow> Coalescer \<Rightarrow> Coalescer" where
  "transcribed response now c =
     (let txt = trim response in if isValidTranscript txt then addToBuffer txt now c else c)"

text \<open>The part of \<open>stop\<close> that deals with the buffer's timer.\<close>

definition stop_buffer_timer :: "Coalescer \<Rightarrow> Coalescer" where
  "stop_buffer_timer c =
     (case bufferTimeout c of
        Some t \<Rightarrow> (clear_timeout t c)\<lparr>bufferTimeout := None\<rparr>
      | None \<Rightarrow> c)"

datatype coalescer_event = Transcribed string int | TimerFired nat int

fun coalescer_step :: "coalescer_event \<Rightarrow> Coalescer \<Rightarrow> Coalescer" where
  "coalescer_step (Transcribed response now) c = transcribed response now c"
| "coalescer_step (TimerFired t now) c = timer_fired t now c"

fun coalescer_run :: "coalescer_event list \<Rightarrow> Coalescer \<Rightarrow> Coalescer" where
  "coalescer_run [] c = c"
| "coalescer_run (ev # evs) c = coalescer_run evs (coalescer_step ev c)"

text \<open>A fragment as \<open>transcribeChunk\<close> hands it to the buffer: trimmed and not empty.\<close>

definition fragment :: "string \<Rightarrow> bool" where
  "fragment f = (f \<noteq> [] \<and> \<not> is_space (hd f) \<and> \<not> is_space (last f))"

definition ex_continuous :: "coalescer_event list" where
  "ex_continuous =
     [Transcribed ''a'' 0, Transcribed ''b'' 900, Transcribed ''c'' 1800,
      Transcribed ''d'' 2700, Transcribed ''e'' 3600]"

section \<open>Capture supervisors (twitch-capture.ts, twitch-audio-capture.ts)\<close>

text \<open>
  A child process as Node shows it: \<open>killed\<close> is set once a signal has been delivered to
  it, not when it has gone; \<open>exited\<close> says that its exit has been observed (its handle
  is gone); \<open>exitCode\<close> is null until then, and stays null when a signal ended it;
  \<open>received\<close> lists the signals delivered to it.
\<close>

datatype signal = SIGTERM | SIGKILL

record ChildProcess =
  killed :: bool
  exited :: bool
  exitCode :: "int option"
  received :: "signal list"

text \<open>\<open>subprocess.kill(signal)\<close>: nothing is delivered to a process that has exited.\<close>

definition kill :: "signal \<Rightarrow> ChildProcess \<Rightarrow> ChildProcess" where
  "kill sig p = (if exited p then p else p\<lparr>killed := True, received := received p @ [sig]\<rparr>)"

subsection \<open>The video supervisor\<close>

record TwitchStreamCapture =
  sc_isRunning :: bool
  captureInterval :: "nat option"
  sc_activeProcesses :: "nat list"
  sc_procs :: "nat \<Rightarrow> ChildProcess"

fun kill_all :: "nat list \<Rightarrow> (nat \<Rightarrow> ChildProcess) \<Rightarrow> (nat \<Rightarrow> ChildProcess)" where
  "kill_all [] ps = ps"
| "kill_all (pid # pids) ps =
     kill_all pids (if \<not> killed (ps pid) then ps(pid := kill SIGTERM (ps pid)) else ps)"

text \<open>
  \<open>TwitchStreamCapture.stop\<close>. The function is async but awaits nothing: it runs to its
  end in one go, and the promise it returns is already fulfilled.
\<close>

definition sc_stop :: "TwitchStreamCapture \<Rightarrow> TwitchStreamCapture" where
  "sc_stop c =
     c\<lparr>sc_isRunning := False, captureInterval := None,
       sc_procs := kill_all (sc_activeProcesses c) (sc_procs c),
       sc_activeProcesses := []\<rparr>"

subsection \<open>The audio supervisor\<close>

text \<open>
  \<open>TwitchAudioCapture.killProcess\<close> for one process: the promise's state, the set of
  tracked processes and the process itself. \<open>killProcess\<close> is the call; the three
  callbacks it installs are \<open>kp_exit\<close> (the process's exit or error event),
  \<open>kp_force\<close> (the 2 second timer) and \<open>kp_cap\<close> (the 3 second timer).
\<close>

record KillProcess =
  resolved :: bool
  ac_activeProcesses :: "nat list"
  proc :: ChildProcess
  listening :: bool

definition kp_cleanup :: "nat \<Rightarrow> KillProcess \<Rightarrow> KillProcess" where
  "kp_cleanup pid k = k\<lparr>ac_activeProcesses := removeAll pid (ac_activeProcesses k), resolved := True\<rparr>"

definition killProcess :: "nat \<Rightarrow> KillProcess \<Rightarrow> KillProcess" where
  "killProcess pid k =
     (if killed (proc k) \<or> exitCode (proc k) \<noteq> None
      then k\<lparr>ac_activeProcesses := removeAll pid (ac_activeProcesses k), resolved := True\<rparr>
      else k\<lparr>listening := True, proc := kill SIGTERM (proc k)\<rparr>)"

text \<open>The process's exit is observed; the \<open>once\<close> listener, if installed, runs.\<close>

definition kp_exit :: "nat \<Rightarrow> int option \<Rightarrow> KillProcess \<Rightarrow> KillProcess" where
  "kp_exit pid code k =
     (let k1 = k\<lparr>proc := (proc k)\<lparr>exited := True, exitCode := code\<rparr>\<rparr>
      in if listening k1 then kp_cleanup pid (k1\<lparr>listening := False\<rparr>) else k1)"

definition kp_force :: "KillProcess \<Rightarrow> KillProcess" where
  "kp_force k =
     (if \<not> killed (proc k) \<and> exitCode (proc k) = None
      then k\<lparr>proc := kill SIGKILL (proc k)\<rparr> else k)"

definition kp_cap :: "nat \<Rightarrow> KillProcess \<Rightarrow> KillProcess" where
  "kp_cap pid k = kp_cleanup pid k"

definition ex_running :: ChildProcess where
  "ex_running = \<lparr>killed = False, exited = False, exitCode = None, received = []\<rparr>"

definition ex_capture :: TwitchStreamCapture where
  "ex_capture = \<lparr>sc_isRunning = True, captureInterval = Some 0, sc_activeProcesses = [41],
                 sc_procs = (\<lambda>pid. ex_running)\<rparr>"

definition ex_kill :: KillProcess where
  "ex_kill = \<lparr>resolved = False, ac_activeProcesses = [41], proc = ex_running, listening = False\<rparr>"

section \<open>The fan-out pass\<close>

lemma delete_filter: "AList.delete k al = filter (\<lambda>e. fst e \<noteq> k) al"
  by (induction al) auto

lemma broadcast_loop_eq:
  "broadcast_loop es m h =
     h\<lparr>connectedClaws := filter (\<lambda>e. fst e \<notin> set (dead_ids (readyState h) es)) (connectedClaws h),
       sent := sent h @ fanout (filter (is_open (readyState h)) es) m\<rparr>"
proof (induction es arbitrary: h)
  case Nil
  show ?case by (simp add: dead_ids_def fanout_def)
next
  case (Cons e es)
  show ?case
  proof (cases "readyState h (ws (snd e)) = OPEN")
    case True
    then show ?thesis
      by (simp add: Cons.IH ws_send_def dead_ids_def fanout_def is_open_def)
  next
    case False
    then show ?thesis
      by (simp add: Cons.IH dead_ids_def fanout_def is_open_def delete_filter conj_commute)
  qed
qed

lemma broadcast_unfold:
  "broadcast m h =
     h\<lparr>connectedClaws :=
         filter (\<lambda>e. fst e \<notin> set (dead_ids (readyState h) (connectedClaws h))) (connectedClaws h),
       sent := sent h @ fanout (subscribers h) m\<rparr>"
  by (simp add: broadcast_def broadcast_loop_eq subscribers_def)

lemma alive_filter:
  assumes "distinct (map fst es)"
  shows "filter (\<lambda>e. fst e \<notin> set (dead_ids rs es)) es = filter (is_open rs) es"
proof (rule filter_cong[OF refl])
  fix e assume e: "e \<in> set es"
  show "(fst e \<notin> set (dead_ids rs es)) = is_open rs e"
  proof
    assume "fst e \<notin> set (dead_ids rs es)"
    with e show "is_open rs e" by (force simp: dead_ids_def)
  next
    assume o: "is_open rs e"
    show "fst e \<notin> set (dead_ids rs es)"
    proof
      assume "fst e \<in> set (dead_ids rs es)"
      then obtain e' where e': "e' \<in> set es" "\<not> is_open rs e'" "fst e' = fst e"
        by (auto simp: dead_ids_def)
      from assms e e' have "e' = e"
        by (meson eq_key_imp_eq_value prod.expand distinct_map inj_onD)
      with o e' show False by simp
    qed
  qed
qed

lemma broadcast_eq:
  assumes "distinct (map fst (connectedClaws h))"
  shows "broadcast m h = h\<lparr>connectedClaws := subscribers h, sent := sent h @ fanout (subscribers h) m\<rparr>"
  by (simp add: broadcast_unfold alive_filter[OF assms] subscribers_def)

lemma call_handlers_eq:
  "call_handlers ks cm h = h\<lparr>handled := handled h @ map (\<lambda>k. (k, cm)) ks\<rparr>"
  by (induction ks arbitrary: h) simp_all

lemmas hub_ops =
  broadcast_unfold broadcastState_def setStreamLive_def broadcastChatMessage_def
  broadcastTranscript_def frame_summarized_def broadcastFrame_def describer_settled_def
  on_connection_def handleClawMessage_def handleClawDisconnect_def on_close_def
  ws_send_def call_handlers_eq summarizeFrame_def summarizeFrame_resume_def

lemmas hub_splits = option.splits sum.splits summarize_result.splits prod.splits

lemmas ex_defs = ex_frame_def ex_register_def ex_hub_def ex_one_subscriber_def
  new_VisionBroadcaster_def new_FrameSummarizer_def

lemmas eval_defs =
  broadcast_def broadcastState_def setStreamLive_def broadcastChatMessage_def
  broadcastTranscript_def frame_summarized_def broadcastFrame_def describer_settled_def
  on_connection_def handleClawMessage_def handleClawDisconnect_def on_close_def
  ws_send_def summarizeFrame_def summarizeFrame_resume_def getStreamState_def
  falsy_num_def falsy_str_def or_else_def is_local_def LOCAL_IPS_def Let_def
  state_broadcasts_to_def subscribers_def is_open_def slice_from_def isEnabled_def

lemma ex_one_subscriber_eval:
  "connectedClaws ex_one_subscriber
     = [(''a'', \<lparr>ws = 7, participant = \<lparr>p_id = ''a'', p_name = ''A'', sessionId = '''',
           joinedAt = 11, lastSeen = 11, ipAddress = ''127.0.0.1'', isLocal = True\<rparr>\<rparr>)]
   \<and> readyState ex_one_subscriber 7 = OPEN
   \<and> streamStartedAt ex_one_subscriber = None
   \<and> length (sent ex_one_subscriber) = 2"
  by (simp add: ex_defs eval_defs)

section \<open>Chat history\<close>

lemma step_chat_other:
  assumes "\<And>c now. ev \<noteq> BroadcastChat c now"
  shows "recentChat (step ev h) = recentChat h"
proof (cases ev)
  case (BroadcastChat c now)
  with assms show ?thesis by blast
qed (simp_all add: hub_ops Let_def split: hub_splits)

lemma step_maxChatHistory: "maxChatHistory (step ev h) = maxChatHistory h"
  by (cases ev) (simp_all add: hub_ops Let_def split: hub_splits)

lemma chats_of_other:
  assumes "\<And>c now. ev \<noteq> BroadcastChat c now"
  shows "chats_of (ev # evs) = chats_of evs"
proof (cases ev)
  case (BroadcastChat c now)
  with assms show ?thesis by blast
qed simp_all

lemma push_evict:
  assumes "rc = drop (length cs - 100) cs"
  shows "(if length (rc @ [c]) > 100 then tl (rc @ [c]) else rc @ [c])
           = drop (length (cs @ [c]) - 100) (cs @ [c])"
proof (cases "length cs \<ge> 100")
  case True
  then have len: "length rc = 100" using assms by simp
  then have "rc \<noteq> []" by auto
  then have "tl (rc @ [c]) = tl rc @ [c]" by simp
  also have "tl rc = drop (Suc (length cs - 100)) cs"
    using assms by (simp add: drop_Suc tl_drop)
  finally have "tl (rc @ [c]) = drop (Suc (length cs - 100)) cs @ [c]" .
  moreover have "Suc (length cs - 100) = length (cs @ [c]) - 100" using True by simp
  ultimately show ?thesis using True len by simp
next
  case False
  then show ?thesis using assms by simp
qed

lemma step_recentChat_chat:
  assumes "maxChatHistory h = 100" "recentChat h = drop (length cs - 100) cs"
  shows "recentChat (step (BroadcastChat c now) h) = drop (length (cs @ [c]) - 100) (cs @ [c])"
  using push_evict[OF assms(2), of c] assms(1)
  by (simp add: broadcastChatMessage_def broadcast_unfold Let_def)

lemma run_recentChat:
  assumes "maxChatHistory h = 100" "recentChat h = drop (length cs - 100) cs"
  shows "recentChat (run evs h) = drop (length (cs @ chats_of evs) - 100) (cs @ chats_of evs)"
  using assms
proof (induction evs arbitrary: h cs)
  case Nil
  then show ?case by simp
next
  case (Cons ev evs)
  show ?case
  proof (cases "\<exists>c now. ev = BroadcastChat c now")
    case True
    then obtain c now where ev: "ev = BroadcastChat c now" by blast
    have "recentChat (run evs (step ev h))
            = drop (length ((cs @ [c]) @ chats_of evs) - 100) ((cs @ [c]) @ chats_of evs)"
      by (rule Cons.IH)
         (simp_all add: step_maxChatHistory Cons.prems ev step_recentChat_chat[OF Cons.prems]
            del: step.simps)
    then show ?thesis by (simp add: ev)
  next
    case False
    then have ne: "\<And>c now. ev \<noteq> BroadcastChat c now" by blast
    have "recentChat (run evs (step ev h))
            = drop (length (cs @ chats_of evs) - 100) (cs @ chats_of evs)"
      by (rule Cons.IH)
         (simp_all add: step_chat_other[OF ne] step_maxChatHistory Cons.prems del: step.simps)
    then show ?thesis by (simp add: chats_of_other[OF ne])
  qed
qed

text \<open>
  C7. Whatever happens to a hub after its construction, the chat history it retains is
  the last 100 chat messages it was given to broadcast, in the order they came: it never
  holds more than 100 entries, and the entries it has dropped are the oldest ones.
\<close>

theorem chat_history_bounded_fifo:
  "recentChat (run evs (new_VisionBroadcaster apiKey handlers frames))
     = drop (length (chats_of evs) - 100) (chats_of evs)
   \<and> length (recentChat (run evs (new_VisionBroadcaster apiKey handlers frames))) \<le> 100"
proof -
  have "recentChat (run evs (new_VisionBroadcaster apiKey handlers frames))
          = drop (length ([] @ chats_of evs) - 100) ([] @ chats_of evs)"
    by (rule run_recentChat) (simp_all add: new_VisionBroadcaster_def)
  then show ?thesis by simp
qed

lemma chats_of_map: "chats_of (map (\<lambda>i. BroadcastChat (f i) (g i)) xs) = map f xs"
  by (induction xs) simp_all

theorem chat_history_bounded_fifo_witness:
  "recentChat (run (map (\<lambda>i. BroadcastChat (ex_chat i) (int i)) [0..<101]) ex_hub)
     = map ex_chat [1..<101]"
  using chat_history_bounded_fifo
          [of "map (\<lambda>i. BroadcastChat (ex_chat i) (int i)) [0..<101]" False "[]" "\<lambda>a. ex_frame"]
  by (simp add: chats_of_map ex_hub_def drop_map)

section \<open>The snapshot\<close>

lemma slice_from_last: "0 < k \<Longrightarrow> slice_from (- int k) xs = drop (length xs - k) xs"
  by (auto simp: slice_from_def Let_def max_def nat_diff_distrib')

text \<open>
  C8. \<open>getStreamState\<close> returns the state derived from the hub's fields, and the chat
  list in it is the last 20 entries of the retained history: the whole history when it
  has at most 20 entries, its final 20 otherwise.
\<close>

theorem snapshot_last_20:
  "st_recentChat (getStreamState h) = drop (length (recentChat h) - 20) (recentChat h)
   \<and> length (st_recentChat (getStreamState h)) = min 20 (length (recentChat h))
   \<and> isLive (getStreamState h) = (streamStartedAt h \<noteq> None)
   \<and> st_streamStartedAt (getStreamState h) = streamStartedAt h
   \<and> st_currentFrame (getStreamState h) = get_frame h
   \<and> participants (getStreamState h) = getConnectedClaws h"
  using slice_from_last[of 20 "recentChat h"]
  by (simp add: getStreamState_def get_frame_def getConnectedClaws_def)

theorem snapshot_last_20_witness:
  "st_recentChat (getStreamState (ex_hub\<lparr>recentChat := map ex_chat [0..<23]\<rparr>))
     = map ex_chat [3..<23]"
  using snapshot_last_20 [of "ex_hub\<lparr>recentChat := map ex_chat [0..<23]\<rparr>"]
  by (simp add: drop_map)

section \<open>Liveness\<close>

lemma distinct_subscribers:
  "distinct (map fst (connectedClaws h)) \<Longrightarrow> distinct (map fst (subscribers h))"
  by (simp add: subscribers_def distinct_map_filter)

lemma count_fanout:
  "length (state_broadcasts_to s (fanout es m))
     = (if b_type m = TState then length (filter (\<lambda>e. ws (snd e) = s) es) else 0)"
  by (induction es) (simp_all add: state_broadcasts_to_def fanout_def)

text \<open>
  C1, as the code has it. From an offline hub, \<open>setStreamLive(true)\<close> called twice (the
  first clock reading not 0) sets the stream-start timestamp on the first call and leaves
  it unchanged on the second, and the stream is live after both. Each of the two calls
  fans a state message out to every subscriber whose socket is open, so a subscriber is
  sent two state messages by the pair, not one.
\<close>

theorem setStreamLive_twice:
  assumes "distinct (map fst (connectedClaws h))" and "streamStartedAt h = None" and "t1 \<noteq> 0"
  shows "streamStartedAt (setStreamLive True t1 h) = Some t1
    \<and> streamStartedAt (setStreamLive True t2 (setStreamLive True t1 h)) = Some t1
    \<and> isLive (getStreamState (setStreamLive True t2 (setStreamLive True t1 h)))
    \<and> sent (setStreamLive True t1 h)
        = sent h @ fanout (subscribers h)
            \<lparr>b_type = TState,
             payload = PState (getStreamState (h\<lparr>streamStartedAt := Some t1\<rparr>)),
             b_timestamp = t1\<rparr>
    \<and> sent (setStreamLive True t2 (setStreamLive True t1 h))
        = sent (setStreamLive True t1 h) @ fanout (subscribers h)
            \<lparr>b_type = TState,
             payload = PState (getStreamState (setStreamLive True t1 h)),
             b_timestamp = t2\<rparr>
    \<and> length (state_broadcasts_to s
          (drop (length (sent h)) (sent (setStreamLive True t2 (setStreamLive True t1 h)))))
        = 2 * length (filter (\<lambda>e. ws (snd e) = s) (subscribers h))"
proof -
  let ?h0 = "h\<lparr>streamStartedAt := Some t1\<rparr>"
  let ?m1 = "\<lparr>b_type = TState, payload = PState (getStreamState ?h0), b_timestamp = t1\<rparr>"
  have d0: "distinct (map fst (connectedClaws ?h0))" using assms(1) by simp
  have s0: "subscribers ?h0 = subscribers h" by (simp add: subscribers_def)
  have h1: "setStreamLive True t1 h
              = ?h0\<lparr>connectedClaws := subscribers h, sent := sent h @ fanout (subscribers h) ?m1\<rparr>"
    using assms(2) broadcast_eq[OF d0, of ?m1]
    by (simp add: setStreamLive_def falsy_num_def broadcastState_def s0)
  let ?h1 = "setStreamLive True t1 h"
  let ?m2 = "\<lparr>b_type = TState, payload = PState (getStreamState ?h1), b_timestamp = t2\<rparr>"
  have d1: "distinct (map fst (connectedClaws ?h1))"
    using assms(1) by (simp add: h1 distinct_subscribers)
  have s1: "subscribers ?h1 = subscribers h" by (simp add: h1 subscribers_def)
  have st1: "streamStartedAt ?h1 = Some t1" by (simp add: h1)
  have h2: "setStreamLive True t2 ?h1
              = ?h1\<lparr>connectedClaws := subscribers h, sent := sent ?h1 @ fanout (subscribers h) ?m2\<rparr>"
    using assms(3) st1 broadcast_eq[OF d1, of ?m2]
    by (simp add: setStreamLive_def[of True t2] falsy_num_def broadcastState_def s1)
  have sent1: "sent ?h1 = sent h @ fanout (subscribers h) ?m1" by (simp add: h1)
  have sent2: "sent (setStreamLive True t2 ?h1) = sent ?h1 @ fanout (subscribers h) ?m2"
    by (subst h2) simp
  have st2: "streamStartedAt (setStreamLive True t2 ?h1) = Some t1"
    by (subst h2) (simp add: st1)
  have cnt: "length (state_broadcasts_to s (drop (length (sent h)) (sent (setStreamLive True t2 ?h1))))
               = 2 * length (filter (\<lambda>e. ws (snd e) = s) (subscribers h))"
    using count_fanout[of s "subscribers h" ?m1] count_fanout[of s "subscribers h" ?m2]
    by (simp add: sent2 sent1 state_broadcasts_to_def)
  show ?thesis
    using st1 st2 sent1 sent2 cnt by (simp add: getStreamState_def)
qed

theorem setStreamLive_twice_witness:
  "streamStartedAt (setStreamLive True 200 (setStreamLive True 100 ex_one_subscriber)) = Some 100
   \<and> length (state_broadcasts_to 7
     (drop (length (sent ex_one_subscriber))
        (sent (setStreamLive True 200 (setStreamLive True 100 ex_one_subscriber))))) = 2"
proof -
  have a: "distinct (map fst (connectedClaws ex_one_subscriber))"
    by (simp add: ex_one_subscriber_eval)
  have b: "streamStartedAt ex_one_subscriber = None"
    by (simp add: ex_one_subscriber_eval)
  have c: "(100::int) \<noteq> 0" by simp
  have d: "length (filter (\<lambda>e. ws (snd e) = 7) (subscribers ex_one_subscriber)) = 1"
    by (simp add: subscribers_def is_open_def ex_one_subscriber_eval)
  note pair = setStreamLive_twice[OF a b c, of 200 7]
  have p1: "streamStartedAt (setStreamLive True 200 (setStreamLive True 100 ex_one_subscriber))
              = Some 100"
    using pair by blast
  have p2: "length (state_broadcasts_to 7
              (drop (length (sent ex_one_subscriber))
                (sent (setStreamLive True 200 (setStreamLive True 100 ex_one_subscriber)))))
            = 2 * length (filter (\<lambda>e. ws (snd e) = 7) (subscribers ex_one_subscriber))"
    using pair by blast
  show ?thesis using p1 p2 d by simp
qed

text \<open>
  The claim as it is written fails: with one open subscriber, the two calls send it two
  state messages.
\<close>

theorem setStreamLive_twice_counterexample:
  "length (state_broadcasts_to 7
     (drop (length (sent ex_one_subscriber))
        (sent (setStreamLive True 200 (setStreamLive True 100 ex_one_subscriber))))) \<noteq> 1"
  by (simp add: ex_defs eval_defs)


section \<open>Metrics\<close>

lemma count_of_update:
  "count_of (AList.update k v al) ip = (if ip = k then v else count_of al ip)"
  by (simp add: count_of_def or_else_def update_conv')

lemma step_metrics:
  "totalConnectionsEver h \<le> totalConnectionsEver (step ev h)
   \<and> count_of (connectionsByIP h) ip \<le> count_of (connectionsByIP (step ev h)) ip
   \<and> fst ` set (connectionsByIP h) \<subseteq> fst ` set (connectionsByIP (step ev h))"
proof (cases ev)
  case (Connection s addr now)
  have "fst ` set (connectionsByIP h) \<subseteq> fst ` set (AList.update addr v (connectionsByIP h))" for v
    using update_keys[of addr v "connectionsByIP h"] by (auto split: if_splits simp flip: set_map)
  then show ?thesis
    using Connection
    by (simp add: on_connection_def ws_send_def Let_def count_of_update)
       (simp add: count_of_def or_else_def)
qed (simp_all add: hub_ops Let_def split: hub_splits)

lemma run_metrics:
  "totalConnectionsEver h \<le> totalConnectionsEver (run evs h)
   \<and> count_of (connectionsByIP h) ip \<le> count_of (connectionsByIP (run evs h)) ip
   \<and> fst ` set (connectionsByIP h) \<subseteq> fst ` set (connectionsByIP (run evs h))"
proof (induction evs arbitrary: h)
  case Nil
  show ?case by simp
next
  case (Cons ev evs)
  from step_metrics[of h ev ip] Cons.IH[of "step ev h"]
  show ?case by (simp del: step.simps) (meson le_trans subset_trans)
qed

lemma set_dedupe: "set (dedupe seen xs) = set seen \<union> set xs"
  by (induction xs arbitrary: seen) auto

lemma distinct_dedupe: "distinct seen \<Longrightarrow> distinct (dedupe seen xs)"
  by (induction xs arbitrary: seen) auto

text \<open>
  C6, as the code has it. Over every sequence of hub events the cumulative connection
  count and each address's connection count never decrease, and no address is lost from
  the per-address counts. The \<open>uniqueIPs\<close> list is not cumulative: it is the distinct
  addresses of the participants registered at the moment, as the local and foreign
  counts are.
\<close>

theorem metrics_cumulative_monotone:
  "totalConnections (getMetrics h) \<le> totalConnections (getMetrics (run evs h))
   \<and> (\<forall>ip. count_of (m_connectionsByIP (getMetrics h)) ip
            \<le> count_of (m_connectionsByIP (getMetrics (run evs h))) ip)
   \<and> fst ` set (m_connectionsByIP (getMetrics h))
        \<subseteq> fst ` set (m_connectionsByIP (getMetrics (run evs h)))
   \<and> set (uniqueIPs (getMetrics (run evs h))) = ipAddress ` set (getConnectedClaws (run evs h))
   \<and> distinct (uniqueIPs (getMetrics (run evs h)))"
  using run_metrics[of h evs]
  by (simp add: getMetrics_def Let_def set_dedupe distinct_dedupe)

theorem metrics_cumulative_monotone_witness:
  "totalConnections (getMetrics ex_one_subscriber) = 1
   \<and> totalConnections (getMetrics (run [Close 7 12] ex_one_subscriber)) = 1
   \<and> count_of (m_connectionsByIP (getMetrics (run [Close 7 12] ex_one_subscriber))) ''127.0.0.1'' = 1
   \<and> uniqueIPs (getMetrics (run [Close 7 12] ex_one_subscriber)) = []"
proof -
  have "uniqueIPs (getMetrics (run [Close 7 12] ex_one_subscriber)) = []
      \<and> totalConnections (getMetrics (run [Close 7 12] ex_one_subscriber)) = 1
      \<and> totalConnections (getMetrics ex_one_subscriber) = 1
      \<and> count_of (m_connectionsByIP (getMetrics (run [Close 7 12] ex_one_subscriber))) ''127.0.0.1'' \<le> 1"
    by (simp add: ex_defs eval_defs getMetrics_def getConnectedClaws_def count_of_def)
  moreover have "count_of (m_connectionsByIP (getMetrics ex_one_subscriber)) ''127.0.0.1'' = 1"
    by (simp add: ex_defs eval_defs getMetrics_def getConnectedClaws_def count_of_def)
  ultimately show ?thesis
    using metrics_cumulative_monotone[of ex_one_subscriber "[Close 7 12]"]
    by (metis le_antisym)
qed

text \<open>
  The claim as it is written fails: when the only participant disconnects, its address
  leaves \<open>uniqueIPs\<close>.
\<close>

theorem metrics_uniqueIPs_counterexample:
  "\<not> set (uniqueIPs (getMetrics ex_one_subscriber))
        \<subseteq> set (uniqueIPs (getMetrics (run [Close 7 12] ex_one_subscriber)))"
  by (simp add: ex_defs eval_defs getMetrics_def getConnectedClaws_def)

section \<open>Sockets that have not registered\<close>

lemma broadcasts_to_append:
  "broadcasts_to s (xs @ ys) = broadcasts_to s xs @ broadcasts_to s ys"
  by (induction s xs rule: broadcasts_to.induct) simp_all

lemma pongs_to_append: "pongs_to s (xs @ ys) = pongs_to s xs @ pongs_to s ys"
  by (induction s xs rule: pongs_to.induct) simp_all

lemma broadcasts_to_fanout:
  "s \<notin> (\<lambda>e. ws (snd e)) ` set es \<Longrightarrow> broadcasts_to s (fanout es m) = []"
  by (induction es) (auto simp: fanout_def)

lemma pongs_to_fanout: "pongs_to s (fanout es m) = []"
  by (induction es) (auto simp: fanout_def)

lemma touch_ws: "map (\<lambda>e. ws (snd e)) (touch s now es) = map (\<lambda>e. ws (snd e)) es"
  by (induction es) auto

lemma touch_keys: "map fst (touch s now es) = map fst es"
  by (induction es) simp_all

lemma set_update_subset: "set (AList.update k v al) \<subseteq> insert (k, v) (set al)"
  by (induction al) auto

lemma registered_frame [simp]:
  "registered_ws (h\<lparr>sent := x\<rparr>) = registered_ws h"
  "registered_ws (h\<lparr>readyState := r\<rparr>) = registered_ws h"
  "registered_ws (h\<lparr>pendingConnections := p\<rparr>) = registered_ws h"
  "registered_ws (h\<lparr>recentChat := c\<rparr>) = registered_ws h"
  "registered_ws (h\<lparr>currentFrame := f\<rparr>) = registered_ws h"
  "registered_ws (h\<lparr>streamStartedAt := t\<rparr>) = registered_ws h"
  "registered_ws (h\<lparr>totalConnectionsEver := n\<rparr>) = registered_ws h"
  "registered_ws (h\<lparr>connectionsByIP := b\<rparr>) = registered_ws h"
  "registered_ws (h\<lparr>frameSummarizer := fs\<rparr>) = registered_ws h"
  "registered_ws (h\<lparr>heap := hp\<rparr>) = registered_ws h"
  "registered_ws (h\<lparr>awaiting := aw\<rparr>) = registered_ws h"
  "registered_ws (h\<lparr>handled := hl\<rparr>) = registered_ws h"
  by (simp_all add: registered_ws_def)

lemma registered_touch [simp]:
  "registered_ws (h\<lparr>connectedClaws := touch r now (connectedClaws h)\<rparr>) = registered_ws h"
  by (simp add: registered_ws_def touch_ws)

lemma registered_update:
  "set (registered_ws (h\<lparr>connectedClaws := AList.update k c (connectedClaws h)\<rparr>))
     \<subseteq> insert (ws c) (set (registered_ws h))"
  using set_update_subset[of k c "connectedClaws h"] by (auto simp: registered_ws_def)

lemma registered_delete:
  "set (registered_ws (h\<lparr>connectedClaws := AList.delete k (connectedClaws h)\<rparr>))
     \<subseteq> set (registered_ws h)"
  by (auto simp: registered_ws_def delete_filter)

text \<open>A fan-out pass adds no entry and writes nothing to a socket that has none.\<close>

lemma broadcast_unbound:
  assumes "unbound s h"
  shows "unbound s (broadcast m h)"
    and "broadcasts_to s (sent (broadcast m h)) = broadcasts_to s (sent h)"
proof -
  show "unbound s (broadcast m h)"
    using assms by (auto simp: broadcast_unfold unbound_def registered_ws_def)
  have "s \<notin> (\<lambda>e. ws (snd e)) ` set (subscribers h)"
    using assms by (auto simp: unbound_def registered_ws_def subscribers_def)
  then show "broadcasts_to s (sent (broadcast m h)) = broadcasts_to s (sent h)"
    by (simp add: broadcast_unfold broadcasts_to_append broadcasts_to_fanout)
qed

lemma broadcast_pongs: "pongs_to s (sent (broadcast m h)) = pongs_to s (sent h)"
  by (simp add: broadcast_unfold pongs_to_append pongs_to_fanout)

lemma broadcast_readyState: "readyState (broadcast m h) = readyState h"
  by (simp add: broadcast_unfold)

lemma frame_summarized_unbound:
  assumes "unbound s h"
  shows "unbound s (frame_summarized a summ now h)"
    and "broadcasts_to s (sent (frame_summarized a summ now h)) = broadcasts_to s (sent h)"
proof -
  let ?h1 = "h\<lparr>heap := (heap h)(a := (heap h a)\<lparr>summary := Some summ\<rparr>)\<rparr>"
  have u1: "unbound s ?h1" using assms by (simp add: unbound_def)
  show "unbound s (frame_summarized a summ now h)"
    using broadcast_unbound(1)[OF u1] broadcast_unbound(1)[OF assms]
    by (simp add: frame_summarized_def Let_def)
  show "broadcasts_to s (sent (frame_summarized a summ now h)) = broadcasts_to s (sent h)"
    using broadcast_unbound(2)[OF u1] broadcast_unbound(2)[OF assms]
    by (simp add: frame_summarized_def Let_def)
qed

lemma frame_summarized_pongs:
  "pongs_to s (sent (frame_summarized a summ now h)) = pongs_to s (sent h)"
  "readyState (frame_summarized a summ now h) = readyState h"
  by (simp_all add: frame_summarized_def Let_def broadcast_pongs broadcast_readyState)

lemma handleClawMessage_register:
  assumes "accepted_register msg"
  shows "handleClawMessage s (Some msg) now h
           = broadcastState now
               (h\<lparr>pendingConnections := AList.delete s (pendingConnections h),
                  connectedClaws :=
                    AList.update (the (in_clawId msg)) (new_claw s msg now h) (connectedClaws h)\<rparr>)"
  using assms by (simp add: handleClawMessage_def accepted_register_def new_claw_def Let_def)

lemma handleClawMessage_other:
  assumes "\<not> accepted_register msg"
  shows "handleClawMessage s (Some msg) now h
           = (if in_type msg = ''register'' then h
              else if in_type msg = ''chat'' \<or> in_type msg = ''reaction''
                      \<or> in_type msg = ''observation''
              then h\<lparr>handled := handled h @
                     map (\<lambda>k. (k, \<lparr>cm_type = claw_kind_of (in_type msg),
                                    content = or_else (in_content msg) '''',
                                    clawId = or_else (in_clawId msg) '''',
                                    clawName = or_else (in_clawName msg) ''Unknown Claw'',
                                    cm_timestamp = now\<rparr>)) (clawMessageHandlers h)\<rparr>
              else if in_type msg = ''ping''
              then ws_send s (Pong now) (h\<lparr>connectedClaws := touch s now (connectedClaws h)\<rparr>)
              else h)"
  using assms by (auto simp: handleClawMessage_def accepted_register_def call_handlers_eq)

lemma ws_new_claw [simp]: "ws (new_claw s msg now h) = s"
  by (simp add: new_claw_def Let_def)

lemma registers_iff: "registers s (Message r (Some msg) now) = (r = s \<and> accepted_register msg)"
  by (simp add: accepted_register_def)

lemma step_unbound:
  assumes "unbound s h" and "\<not> registers s ev"
  shows "unbound s (step ev h)"
proof (cases ev)
  case (Connection r ip now)
  with assms show ?thesis by (simp add: on_connection_def ws_send_def Let_def unbound_def)
next
  case (Message r parsed now)
  show ?thesis
  proof (cases parsed)
    case None
    with Message assms show ?thesis by (simp add: handleClawMessage_def)
  next
    case (Some msg)
    show ?thesis
    proof (cases "accepted_register msg")
      case True
      with assms(2) Message Some have rs: "r \<noteq> s" by (auto simp: accepted_register_def)
      let ?h2 = "h\<lparr>pendingConnections := AList.delete r (pendingConnections h),
                   connectedClaws :=
                     AList.update (the (in_clawId msg)) (new_claw r msg now h) (connectedClaws h)\<rparr>"
      have "unbound s ?h2"
        using assms(1) rs registered_update[of "the (in_clawId msg)" "new_claw r msg now h" h]
        by (auto simp: unbound_def registered_ws_def)
      from broadcast_unbound(1)[OF this] show ?thesis
        by (simp add: Message Some handleClawMessage_register[OF True] broadcastState_def)
    next
      case False
      with assms(1) show ?thesis
        by (simp add: Message Some handleClawMessage_other[OF False] ws_send_def unbound_def)
    qed
  qed
next
  case (Close r now)
  show ?thesis
  proof (cases "find (\<lambda>e. ws (snd e) = r) (connectedClaws h)")
    case None
    with Close assms show ?thesis by (simp add: on_close_def handleClawDisconnect_def unbound_def)
  next
    case (Some e)
    let ?h1 = "h\<lparr>readyState := (readyState h)(r := CLOSED),
                 connectedClaws := AList.delete (fst e) (connectedClaws h)\<rparr>"
    have "unbound s ?h1"
      using assms(1) by (auto simp: unbound_def registered_ws_def delete_filter)
    from broadcast_unbound(1)[OF this] Close Some show ?thesis
      by (simp add: on_close_def handleClawDisconnect_def broadcastState_def)
  qed
next
  case (SocketClosing r)
  with assms show ?thesis by (simp add: unbound_def)
next
  case (SetStreamLive live now)
  have "unbound s (h\<lparr>streamStartedAt := t\<rparr>)" for t
    using assms(1) by (simp add: unbound_def)
  from broadcast_unbound(1)[OF this] broadcast_unbound(1)[OF assms(1)] SetStreamLive
  show ?thesis by (simp add: setStreamLive_def broadcastState_def)
next
  case (BroadcastFrame a now)
  have u: "unbound s (h\<lparr>currentFrame := Some a\<rparr>)"
    using assms(1) by (simp add: unbound_def)
  have u': "unbound s (h\<lparr>currentFrame := Some a, frameSummarizer := fs\<rparr>)" for fs
    using assms(1) by (simp add: unbound_def)
  from frame_summarized_unbound(1)[OF u'] frame_summarized_unbound(1)[OF u] broadcast_unbound(1)[OF u] u
    BroadcastFrame
  show ?thesis
    by (simp add: broadcastFrame_def summarizeFrame_def Let_def unbound_def)
next
  case (DescriberSettled outcome now)
  show ?thesis
  proof (cases "awaiting h")
    case None
    with DescriberSettled assms show ?thesis by (simp add: describer_settled_def)
  next
    case (Some a)
    have u': "unbound s (h\<lparr>frameSummarizer := fs, awaiting := None\<rparr>)" for fs
      using assms(1) by (simp add: unbound_def)
    from frame_summarized_unbound(1)[OF u'] DescriberSettled Some show ?thesis
      by (cases outcome) (simp_all add: describer_settled_def summarizeFrame_resume_def Let_def)
  qed
next
  case (BroadcastChat c now)
  have "unbound s (h\<lparr>recentChat := x\<rparr>)" for x
    using assms(1) by (simp add: unbound_def)
  from broadcast_unbound(1)[OF this] BroadcastChat show ?thesis
    by (simp add: broadcastChatMessage_def Let_def)
next
  case (BroadcastTranscript t now)
  from broadcast_unbound(1)[OF assms(1)] BroadcastTranscript show ?thesis
    by (simp add: broadcastTranscript_def)
qed

lemma step_broadcasts_unbound:
  assumes "unbound s h" and "\<not> registers s ev" and "\<not> connects s ev"
  shows "broadcasts_to s (sent (step ev h)) = broadcasts_to s (sent h)"
proof (cases ev)
  case (Connection r ip now)
  with assms show ?thesis by (simp add: on_connection_def ws_send_def Let_def broadcasts_to_append)
next
  case (Message r parsed now)
  show ?thesis
  proof (cases parsed)
    case None
    with Message show ?thesis by (simp add: handleClawMessage_def)
  next
    case (Some msg)
    show ?thesis
    proof (cases "accepted_register msg")
      case True
      with assms(2) Message Some have rs: "r \<noteq> s" by (auto simp: accepted_register_def)
      let ?h2 = "h\<lparr>pendingConnections := AList.delete r (pendingConnections h),
                   connectedClaws :=
                     AList.update (the (in_clawId msg)) (new_claw r msg now h) (connectedClaws h)\<rparr>"
      have "unbound s ?h2"
        using assms(1) rs registered_update[of "the (in_clawId msg)" "new_claw r msg now h" h]
        by (auto simp: unbound_def registered_ws_def)
      from broadcast_unbound(2)[OF this] show ?thesis
        by (simp add: Message Some handleClawMessage_register[OF True] broadcastState_def)
    next
      case False
      show ?thesis
        by (simp add: Message Some handleClawMessage_other[OF False] ws_send_def
              broadcasts_to_append)
    qed
  qed
next
  case (Close r now)
  show ?thesis
  proof (cases "find (\<lambda>e. ws (snd e) = r) (connectedClaws h)")
    case None
    with Close show ?thesis by (simp add: on_close_def handleClawDisconnect_def)
  next
    case (Some e)
    let ?h1 = "h\<lparr>readyState := (readyState h)(r := CLOSED),
                 connectedClaws := AList.delete (fst e) (connectedClaws h)\<rparr>"
    have "unbound s ?h1"
      using assms(1) by (auto simp: unbound_def registered_ws_def delete_filter)
    from broadcast_unbound(2)[OF this] Close Some show ?thesis
      by (simp add: on_close_def handleClawDisconnect_def broadcastState_def)
  qed
next
  case (SocketClosing r)
  then show ?thesis by simp
next
  case (SetStreamLive live now)
  have "unbound s (h\<lparr>streamStartedAt := t\<rparr>)" for t
    using assms(1) by (simp add: unbound_def)
  from broadcast_unbound(2)[OF this] broadcast_unbound(2)[OF assms(1)] SetStreamLive
  show ?thesis by (simp add: setStreamLive_def broadcastState_def)
next
  case (BroadcastFrame a now)
  have u: "unbound s (h\<lparr>currentFrame := Some a\<rparr>)"
    using assms(1) by (simp add: unbound_def)
  have u': "unbound s (h\<lparr>currentFrame := Some a, frameSummarizer := fs\<rparr>)" for fs
    using assms(1) by (simp add: unbound_def)
  from frame_summarized_unbound(2)[OF u'] frame_summarized_unbound(2)[OF u] broadcast_unbound(2)[OF u]
    BroadcastFrame
  show ?thesis
    by (simp add: broadcastFrame_def summarizeFrame_def Let_def)
next
  case (DescriberSettled outcome now)
  show ?thesis
  proof (cases "awaiting h")
    case None
    with DescriberSettled show ?thesis by (simp add: describer_settled_def)
  next
    case (Some a)
    have u': "unbound s (h\<lparr>frameSummarizer := fs, awaiting := None\<rparr>)" for fs
      using assms(1) by (simp add: unbound_def)
    from frame_summarized_unbound(2)[OF u'] DescriberSettled Some show ?thesis
      by (cases outcome) (simp_all add: describer_settled_def summarizeFrame_resume_def Let_def)
  qed
next
  case (BroadcastChat c now)
  have "unbound s (h\<lparr>recentChat := x\<rparr>)" for x
    using assms(1) by (simp add: unbound_def)
  from broadcast_unbound(2)[OF this] BroadcastChat show ?thesis
    by (simp add: broadcastChatMessage_def Let_def)
next
  case (BroadcastTranscript t now)
  from broadcast_unbound(2)[OF assms(1)] BroadcastTranscript show ?thesis
    by (simp add: broadcastTranscript_def)
qed

lemma step_readyState_open:
  assumes "readyState h s = OPEN" and "\<not> closes s ev"
  shows "readyState (step ev h) s = OPEN"
proof (cases ev)
  case (Message r parsed now)
  show ?thesis
  proof (cases parsed)
    case None
    with Message assms show ?thesis by (simp add: handleClawMessage_def)
  next
    case (Some msg)
    with Message assms show ?thesis
      by (cases "accepted_register msg")
         (simp_all add: handleClawMessage_register handleClawMessage_other broadcastState_def
            broadcast_readyState ws_send_def)
  qed
next
  case (Close r now)
  with assms show ?thesis
    by (simp add: on_close_def handleClawDisconnect_def broadcastState_def broadcast_readyState
          split: option.splits)
next
  case (BroadcastFrame a now)
  with assms show ?thesis
    by (simp add: broadcastFrame_def summarizeFrame_def Let_def frame_summarized_pongs
          broadcast_readyState)
next
  case (DescriberSettled outcome now)
  with assms show ?thesis
    by (simp add: describer_settled_def summarizeFrame_resume_def Let_def frame_summarized_pongs
          split: option.splits sum.splits)
qed (use assms in \<open>simp_all add: on_connection_def ws_send_def Let_def setStreamLive_def
       broadcastState_def broadcastChatMessage_def broadcastTranscript_def broadcast_readyState\<close>)

lemma step_pongs:
  assumes "readyState h s = OPEN"
  shows "pongs_to s (sent (step ev h)) = pongs_to s (sent h) @ pings_of s [ev]"
proof (cases ev)
  case (Message r parsed now)
  show ?thesis
  proof (cases parsed)
    case None
    with Message show ?thesis by (simp add: handleClawMessage_def)
  next
    case (Some msg)
    show ?thesis
    proof (cases "accepted_register msg")
      case True
      then show ?thesis
        by (simp add: Message Some handleClawMessage_register broadcastState_def broadcast_pongs
              accepted_register_def)
    next
      case False
      with assms show ?thesis
        by (simp add: Message Some handleClawMessage_other ws_send_def pongs_to_append)
    qed
  qed
next
  case (Close r now)
  then show ?thesis
    by (simp add: on_close_def handleClawDisconnect_def broadcastState_def broadcast_pongs
          split: option.splits)
next
  case (BroadcastFrame a now)
  then show ?thesis
    by (simp add: broadcastFrame_def summarizeFrame_def Let_def frame_summarized_pongs
          broadcast_pongs)
next
  case (DescriberSettled outcome now)
  then show ?thesis
    by (simp add: describer_settled_def summarizeFrame_resume_def Let_def frame_summarized_pongs
          split: option.splits sum.splits)
qed (simp_all add: on_connection_def ws_send_def Let_def setStreamLive_def pongs_to_append
       broadcastState_def broadcastChatMessage_def broadcastTranscript_def broadcast_pongs)

lemma pings_of_Cons: "pings_of s (ev # evs) = pings_of s [ev] @ pings_of s evs"
proof (cases ev)
  case (Message r parsed now)
  then show ?thesis by (cases parsed) simp_all
qed simp_all

lemma run_unregistered:
  assumes "unbound s h" and "\<forall>ev\<in>set evs. \<not> registers s ev \<and> \<not> connects s ev"
  shows "broadcasts_to s (sent (run evs h)) = broadcasts_to s (sent h)"
  using assms
proof (induction evs arbitrary: h)
  case Nil
  show ?case by simp
next
  case (Cons ev evs)
  from Cons.prems have ev: "\<not> registers s ev" "\<not> connects s ev" by simp_all
  have "broadcasts_to s (sent (run evs (step ev h))) = broadcasts_to s (sent (step ev h))"
    by (rule Cons.IH) (use Cons.prems step_unbound[OF Cons.prems(1) ev(1)] in simp_all)
  with step_broadcasts_unbound[OF Cons.prems(1) ev] show ?case by simp
qed

lemma run_pongs:
  assumes "readyState h s = OPEN" and "\<forall>ev\<in>set evs. \<not> closes s ev"
  shows "readyState (run evs h) s = OPEN
         \<and> pongs_to s (sent (run evs h)) = pongs_to s (sent h) @ pings_of s evs"
  using assms
proof (induction evs arbitrary: h)
  case Nil
  then show ?case by simp
next
  case (Cons ev evs)
  from Cons.prems have ev: "\<not> closes s ev" by simp
  note o = step_readyState_open[OF Cons.prems(1) ev]
  have "readyState (run evs (step ev h)) s = OPEN
        \<and> pongs_to s (sent (run evs (step ev h))) = pongs_to s (sent (step ev h)) @ pings_of s evs"
    by (rule Cons.IH) (use Cons.prems o in simp_all)
  with step_pongs[OF Cons.prems(1), of ev] pings_of_Cons[of s ev evs] show ?case by simp
qed

lemma on_connection_facts:
  assumes "unbound s h"
  shows "unbound s (on_connection s ip now h)"
    and "readyState (on_connection s ip now h) s = OPEN"
    and "broadcasts_to s (sent (on_connection s ip now h))
           = broadcasts_to s (sent h)
             @ [\<lparr>b_type = TState, payload = PState (getStreamState h), b_timestamp = now\<rparr>]"
    and "pongs_to s (sent (on_connection s ip now h)) = pongs_to s (sent h)"
  using assms
  by (simp_all add: on_connection_def ws_send_def Let_def unbound_def
        broadcasts_to_append pongs_to_append getStreamState_def)

text \<open>
  C9. A socket that connects while no registry entry is bound to it, and that sends no
  accepted register message afterwards, is sent exactly one broadcast however the hub
  is driven: the state message of its connection. No frame, chat, transcript or later
  state broadcast reaches it. As long as nothing closes the socket it stays open and
  every ping on it is answered with a pong.
\<close>

theorem unregistered_gets_state_once:
  assumes "unbound s h" and "\<forall>ev\<in>set evs. \<not> registers s ev \<and> \<not> connects s ev"
  shows "broadcasts_to s (sent (run evs (on_connection s ip now h)))
           = broadcasts_to s (sent h)
             @ [\<lparr>b_type = TState, payload = PState (getStreamState h), b_timestamp = now\<rparr>]
    \<and> ((\<forall>ev\<in>set evs. \<not> closes s ev) \<longrightarrow>
          readyState (run evs (on_connection s ip now h)) s = OPEN
          \<and> pongs_to s (sent (run evs (on_connection s ip now h)))
              = pongs_to s (sent h) @ pings_of s evs)"
  using run_unregistered[OF on_connection_facts(1)[OF assms(1)] assms(2), of ip now]
        run_pongs[OF on_connection_facts(2)[OF assms(1)], of evs ip now]
        on_connection_facts(3,4)[OF assms(1), of ip now]
  by simp


theorem unregistered_gets_state_once_witness:
  "broadcasts_to 8 (sent (run ex_traffic (on_connection 8 ''203.0.113.9'' 15 ex_one_subscriber)))
     = [\<lparr>b_type = TState, payload = PState (getStreamState ex_one_subscriber), b_timestamp = 15\<rparr>]
   \<and> pongs_to 8 (sent (run ex_traffic (on_connection 8 ''203.0.113.9'' 15 ex_one_subscriber)))
     = [20]
   \<and> map b_type
       (broadcasts_to 7 (sent (run ex_traffic (on_connection 8 ''203.0.113.9'' 15 ex_one_subscriber))))
     = [TState, TState, TChat, TState, TTranscript, TFrame]"
proof -
  have u: "unbound 8 ex_one_subscriber"
    by (simp add: unbound_def registered_ws_def ex_one_subscriber_eval)
  have q: "\<forall>ev\<in>set ex_traffic. \<not> registers 8 ev \<and> \<not> connects 8 ev"
    by (simp add: ex_traffic_def ex_ping_def)
  have c: "\<forall>ev\<in>set ex_traffic. \<not> closes 8 ev"
    by (simp add: ex_traffic_def ex_ping_def)
  have b0: "broadcasts_to 8 (sent ex_one_subscriber) = []"
    and p0: "pongs_to 8 (sent ex_one_subscriber) = []"
    by (simp_all add: ex_defs eval_defs)
  have pings: "pings_of 8 ex_traffic = [20]"
    by (simp add: ex_traffic_def ex_ping_def)
  have other: "map b_type
       (broadcasts_to 7 (sent (run ex_traffic (on_connection 8 ''203.0.113.9'' 15 ex_one_subscriber))))
     = [TState, TState, TChat, TState, TTranscript, TFrame]"
    by (simp add: ex_traffic_def ex_ping_def ex_transcript_def ex_chat_def ex_defs eval_defs)
  note th = unregistered_gets_state_once[OF u q, of "''203.0.113.9''" 15]
  have A: "broadcasts_to 8 (sent (run ex_traffic (on_connection 8 ''203.0.113.9'' 15 ex_one_subscriber)))
     = [\<lparr>b_type = TState, payload = PState (getStreamState ex_one_subscriber), b_timestamp = 15\<rparr>]"
    using th[THEN conjunct1] by (simp only: b0 append_Nil)
  have B: "pongs_to 8 (sent (run ex_traffic (on_connection 8 ''203.0.113.9'' 15 ex_one_subscriber)))
     = [20]"
    using th[THEN conjunct2, THEN mp, OF c, THEN conjunct2] by (simp only: p0 pings append_Nil)
  from A B other show ?thesis by (intro conjI)
qed

section \<open>The current frame and its summary\<close>

lemma broadcast_frame_fields:
  "heap (broadcast m h) = heap h"
  "currentFrame (broadcast m h) = currentFrame h"
  "awaiting (broadcast m h) = awaiting h"
  "frameSummarizer (broadcast m h) = frameSummarizer h"
  by (simp_all add: broadcast_unfold)

lemma quiet_step:
  assumes "quiet ev"
  shows "heap (step ev h) = heap h \<and> currentFrame (step ev h) = currentFrame h
         \<and> awaiting (step ev h) = awaiting h \<and> frameSummarizer (step ev h) = frameSummarizer h"
proof (cases ev)
  case (Message r parsed now)
  show ?thesis
  proof (cases parsed)
    case None
    with Message show ?thesis by (simp add: handleClawMessage_def)
  next
    case (Some msg)
    with Message show ?thesis
      by (cases "accepted_register msg")
         (simp_all add: handleClawMessage_register handleClawMessage_other broadcastState_def
            broadcast_frame_fields ws_send_def)
  qed
next
  case (Close r now)
  then show ?thesis
    by (simp add: on_close_def handleClawDisconnect_def broadcastState_def broadcast_frame_fields
          split: option.splits)
qed (use assms in \<open>simp_all add: on_connection_def ws_send_def Let_def setStreamLive_def
       broadcastState_def broadcastChatMessage_def broadcastTranscript_def
       broadcast_frame_fields\<close>)

lemma quiet_run:
  assumes "\<forall>ev\<in>set evs. quiet ev"
  shows "heap (run evs h) = heap h \<and> currentFrame (run evs h) = currentFrame h
         \<and> awaiting (run evs h) = awaiting h \<and> frameSummarizer (run evs h) = frameSummarizer h"
  using assms
proof (induction evs arbitrary: h)
  case Nil
  show ?case by simp
next
  case (Cons ev evs)
  from Cons.prems have "quiet ev" and rest: "\<forall>ev\<in>set evs. quiet ev" by simp_all
  from quiet_step[OF this(1), of h] Cons.IH[OF rest, of "step ev h"]
  show ?case by (simp del: step.simps)
qed

lemma broadcastFrame_idle:
  assumes "enabled fs" and "anthropic fs" and "\<not> isSummarizing fs" and "frameSummarizer h = fs"
  shows "broadcastFrame a now h
           = h\<lparr>currentFrame := Some a, frameSummarizer := fs\<lparr>isSummarizing := True\<rparr>,
               awaiting := Some a\<rparr>"
  using assms by (simp add: broadcastFrame_def summarizeFrame_def isEnabled_def Let_def)

lemma describer_settled_text:
  assumes "awaiting h = Some a" and "first_text blocks \<noteq> ''''"
  shows "heap (describer_settled (Inr blocks) now h)
           = (heap h)(a := (heap h a)\<lparr>summary := Some (first_text blocks)\<rparr>)"
    and "currentFrame (describer_settled (Inr blocks) now h) = currentFrame h"
  using assms
  by (simp_all add: describer_settled_def summarizeFrame_resume_def frame_summarized_def Let_def
        broadcast_frame_fields)

text \<open>
  C10. With the summarizer enabled and idle, \<open>broadcastFrame\<close> makes the frame the
  current one before it returns and sends nothing yet: the frame endpoint and the
  snapshot serve the frame as it was given. They go on doing so while the describer
  request is pending, whatever else the hub handles apart from frames. When the request
  settles with a non-empty text, the text is written onto that same frame object: the
  current frame is still the same object, and the frame endpoint and the snapshot now
  serve it with the summary, with no further \<open>broadcastFrame\<close> call.
\<close>

theorem frame_installed_then_summarized:
  assumes "enabled (frameSummarizer h)" and "anthropic (frameSummarizer h)"
    and "\<not> isSummarizing (frameSummarizer h)"
    and "\<forall>ev\<in>set evs. quiet ev" and "first_text blocks \<noteq> ''''"
  shows "currentFrame (broadcastFrame a now h) = Some a
    \<and> get_frame (broadcastFrame a now h) = Some (heap h a)
    \<and> sent (broadcastFrame a now h) = sent h
    \<and> get_frame (run evs (broadcastFrame a now h)) = Some (heap h a)
    \<and> st_currentFrame (getStreamState (run evs (broadcastFrame a now h))) = Some (heap h a)
    \<and> currentFrame (describer_settled (Inr blocks) now' (run evs (broadcastFrame a now h))) = Some a
    \<and> get_frame (describer_settled (Inr blocks) now' (run evs (broadcastFrame a now h)))
        = Some ((heap h a)\<lparr>summary := Some (first_text blocks)\<rparr>)
    \<and> st_currentFrame
          (getStreamState (describer_settled (Inr blocks) now' (run evs (broadcastFrame a now h))))
        = Some ((heap h a)\<lparr>summary := Some (first_text blocks)\<rparr>)"
proof -
  let ?h1 = "broadcastFrame a now h"
  let ?h2 = "run evs ?h1"
  let ?h3 = "describer_settled (Inr blocks) now' ?h2"
  have h1: "?h1 = h\<lparr>currentFrame := Some a,
                     frameSummarizer := (frameSummarizer h)\<lparr>isSummarizing := True\<rparr>,
                     awaiting := Some a\<rparr>"
    by (rule broadcastFrame_idle[OF assms(1-3) refl])
  have f1: "currentFrame ?h1 = Some a" "heap ?h1 = heap h" "sent ?h1 = sent h"
           "awaiting ?h1 = Some a"
    by (simp_all add: h1)
  from quiet_run[OF assms(4), of ?h1] f1
  have f2: "currentFrame ?h2 = Some a" "heap ?h2 = heap h" "awaiting ?h2 = Some a"
    by simp_all
  from describer_settled_text[OF f2(3) assms(5), of now'] f2
  have f3: "currentFrame ?h3 = Some a"
           "heap ?h3 = (heap h)(a := (heap h a)\<lparr>summary := Some (first_text blocks)\<rparr>)"
    by simp_all
  show ?thesis
    using f1 f2 f3 by (simp add: get_frame_def getStreamState_def)
qed

theorem frame_installed_then_summarized_witness:
  "get_frame (run [BroadcastChat (ex_chat 0) 30] (broadcastFrame 0 24 ex_summarizing_hub))
     = Some ex_frame
   \<and> get_frame (describer_settled (Inr [OtherBlock, TextBlock ''A desk.'']) 40
        (run [BroadcastChat (ex_chat 0) 30] (broadcastFrame 0 24 ex_summarizing_hub)))
     = Some (ex_frame\<lparr>summary := Some ''A desk.''\<rparr>)"
proof -
  have a: "enabled (frameSummarizer ex_summarizing_hub)"
    and b: "anthropic (frameSummarizer ex_summarizing_hub)"
    and c: "\<not> isSummarizing (frameSummarizer ex_summarizing_hub)"
    by (simp_all add: ex_summarizing_hub_def new_VisionBroadcaster_def new_FrameSummarizer_def)
  have d: "\<forall>ev\<in>set [BroadcastChat (ex_chat 0) 30]. quiet ev" by simp
  have e: "first_text [OtherBlock, TextBlock ''A desk.''] \<noteq> ''''" by simp
  have f: "heap ex_summarizing_hub 0 = ex_frame"
    by (simp add: ex_summarizing_hub_def new_VisionBroadcaster_def)
  note th = frame_installed_then_summarized[OF a b c d e, of 0 24 40]
  have A: "get_frame (run [BroadcastChat (ex_chat 0) 30] (broadcastFrame 0 24 ex_summarizing_hub))
             = Some (heap ex_summarizing_hub 0)"
    using th by blast
  have B: "get_frame (describer_settled (Inr [OtherBlock, TextBlock ''A desk.'']) 40
             (run [BroadcastChat (ex_chat 0) 30] (broadcastFrame 0 24 ex_summarizing_hub)))
           = Some ((heap ex_summarizing_hub 0)
                     \<lparr>summary := Some (first_text [OtherBlock, TextBlock ''A desk.''])\<rparr>)"
    using th by blast
  from A B show ?thesis by (simp add: f)
qed

section \<open>The registry\<close>

lemma broadcast_filters: "\<exists>P. connectedClaws (broadcast m h) = filter P (connectedClaws h)"
  by (auto simp: broadcast_unfold)

lemma frame_summarized_filters:
  "\<exists>P. connectedClaws (frame_summarized a summ now h) = filter P (connectedClaws h)"
  using broadcast_filters[of _ "h\<lparr>heap := (heap h)(a := (heap h a)\<lparr>summary := Some summ\<rparr>)\<rparr>"]
        broadcast_filters[of _ h]
  by (simp add: frame_summarized_def Let_def)

lemma no_filter: "\<exists>P. xs = filter P xs"
  by (rule exI[of _ "\<lambda>x. True"]) simp

text \<open>Every handler changes the registry as \<open>registry_change\<close> says and then only prunes it.\<close>

lemma step_registry: "\<exists>P. connectedClaws (step ev h) = filter P (registry_change ev h)"
proof (cases ev)
  case (Connection r ip now)
  then show ?thesis by (simp add: on_connection_def ws_send_def Let_def no_filter)
next
  case (Message r parsed now)
  show ?thesis
  proof (cases parsed)
    case None
    with Message show ?thesis by (simp add: handleClawMessage_def no_filter)
  next
    case (Some msg)
    show ?thesis
    proof (cases "accepted_register msg")
      case True
      let ?h2 = "h\<lparr>pendingConnections := AList.delete r (pendingConnections h),
                   connectedClaws :=
                     AList.update (the (in_clawId msg)) (new_claw r msg now h) (connectedClaws h)\<rparr>"
      from broadcast_filters[of _ ?h2] True show ?thesis
        by (simp add: Message Some handleClawMessage_register broadcastState_def)
    next
      case False
      then show ?thesis
        by (simp add: Message Some handleClawMessage_other[OF False] ws_send_def no_filter)
    qed
  qed
next
  case (Close r now)
  show ?thesis
  proof (cases "find (\<lambda>e. ws (snd e) = r) (connectedClaws h)")
    case None
    with Close show ?thesis by (simp add: on_close_def handleClawDisconnect_def no_filter)
  next
    case (Some e)
    let ?h1 = "h\<lparr>readyState := (readyState h)(r := CLOSED),
                 connectedClaws := AList.delete (fst e) (connectedClaws h)\<rparr>"
    from broadcast_filters[of _ ?h1] Close Some show ?thesis
      by (simp add: on_close_def handleClawDisconnect_def broadcastState_def)
  qed
next
  case (SocketClosing r)
  then show ?thesis by (simp add: no_filter)
next
  case (SetStreamLive live now)
  from broadcast_filters[of _ h] broadcast_filters[of _ "h\<lparr>streamStartedAt := Some now\<rparr>"]
       broadcast_filters[of _ "h\<lparr>streamStartedAt := None\<rparr>"] SetStreamLive
  show ?thesis by (simp add: setStreamLive_def broadcastState_def)
next
  case (BroadcastFrame a now)
  from frame_summarized_filters[of a _ now "h\<lparr>currentFrame := Some a\<rparr>"]
       broadcast_filters[of _ "h\<lparr>currentFrame := Some a\<rparr>"] BroadcastFrame
  show ?thesis by (simp add: broadcastFrame_def summarizeFrame_def Let_def no_filter)
next
  case (DescriberSettled outcome now)
  show ?thesis
  proof (cases "awaiting h")
    case None
    with DescriberSettled show ?thesis by (simp add: describer_settled_def no_filter)
  next
    case (Some a)
    from frame_summarized_filters[of a _ now "h\<lparr>frameSummarizer := fs, awaiting := None\<rparr>" for fs]
         DescriberSettled Some
    show ?thesis
      by (cases outcome) (simp_all add: describer_settled_def summarizeFrame_resume_def Let_def)
  qed
next
  case (BroadcastChat c now)
  from broadcast_filters[of _ "h\<lparr>recentChat := x\<rparr>" for x] BroadcastChat
  show ?thesis by (simp add: broadcastChatMessage_def Let_def)
next
  case (BroadcastTranscript t now)
  from broadcast_filters[of _ h] BroadcastTranscript
  show ?thesis by (simp add: broadcastTranscript_def)
qed

lemma distinct_registry_change:
  assumes "distinct (map fst (connectedClaws h))"
  shows "distinct (map fst (registry_change ev h))"
proof (cases ev)
  case (Message r parsed now)
  with assms show ?thesis
    by (cases parsed) (simp_all add: distinct_update touch_keys)
next
  case (Close r now)
  with assms show ?thesis by (simp add: distinct_delete split: option.splits)
qed (use assms in simp_all)

lemma filed_update:
  "filed_by idOf al \<Longrightarrow> k = idOf (ws c) \<Longrightarrow> filed_by idOf (AList.update k c al)"
  by (induction al) (auto simp: filed_by_def)

lemma filed_touch: "filed_by idOf al \<Longrightarrow> filed_by idOf (touch r now al)"
  by (induction al) (auto simp: filed_by_def)

lemma filed_filter: "filed_by idOf al \<Longrightarrow> filed_by idOf (filter P al)"
  by (induction al) (auto simp: filed_by_def)

lemma filed_registry_change:
  assumes "filed_by idOf (connectedClaws h)" and "keeps_id idOf ev"
  shows "filed_by idOf (registry_change ev h)"
proof (cases ev)
  case (Message r parsed now)
  show ?thesis
  proof (cases parsed)
    case None
    with Message assms show ?thesis by simp
  next
    case (Some msg)
    with Message assms show ?thesis
      by (auto simp: accepted_register_def intro!: filed_update filed_touch)
  qed
next
  case (Close r now)
  with assms show ?thesis by (simp add: delete_filter filed_filter split: option.splits)
qed (use assms in simp_all)

lemma step_distinct_keys:
  assumes "distinct (map fst (connectedClaws h))"
  shows "distinct (map fst (connectedClaws (step ev h)))"
proof -
  from step_registry[of ev h] obtain P
    where "connectedClaws (step ev h) = filter P (registry_change ev h)" by blast
  with distinct_registry_change[OF assms, of ev] show ?thesis
    by (simp add: distinct_map_filter)
qed

lemma step_filed:
  assumes "filed_by idOf (connectedClaws h)" and "keeps_id idOf ev"
  shows "filed_by idOf (connectedClaws (step ev h))"
proof -
  from step_registry[of ev h] obtain P
    where "connectedClaws (step ev h) = filter P (registry_change ev h)" by blast
  with filed_registry_change[OF assms] show ?thesis
    by (simp add: filed_filter)
qed

lemma run_distinct_keys:
  "distinct (map fst (connectedClaws h)) \<Longrightarrow> distinct (map fst (connectedClaws (run evs h)))"
proof (induction evs arbitrary: h)
  case Nil
  then show ?case by simp
next
  case (Cons ev evs)
  from Cons.IH[OF step_distinct_keys[OF Cons.prems, of ev]] show ?case by simp
qed

lemma run_filed:
  assumes "filed_by idOf (connectedClaws h)" and "\<forall>ev\<in>set evs. keeps_id idOf ev"
  shows "filed_by idOf (connectedClaws (run evs h))"
  using assms
proof (induction evs arbitrary: h)
  case Nil
  then show ?case by simp
next
  case (Cons ev evs)
  from Cons.prems have "keeps_id idOf ev" and rest: "\<forall>ev\<in>set evs. keeps_id idOf ev" by simp_all
  from Cons.IH[OF step_filed[OF Cons.prems(1) this(1)] rest] show ?case by simp
qed

lemma one_entry_per_socket:
  assumes "distinct (map fst es)" and "filed_by idOf es"
  shows "distinct (map (\<lambda>e. ws (snd e)) es)"
proof -
  have "inj_on (\<lambda>e. ws (snd e)) (set es)"
  proof (rule inj_onI)
    fix x y assume x: "x \<in> set es" and y: "y \<in> set es" and eq: "ws (snd x) = ws (snd y)"
    from assms(2) x y eq have "fst x = fst y"
      by (simp add: filed_by_def list_all_iff)
    with assms(1) x y show "x = y"
      by (metis eq_key_imp_eq_value prod.collapse)
  qed
  moreover have "distinct es" using assms(1) by (simp add: distinct_map)
  ultimately show ?thesis by (simp add: distinct_map)
qed

lemma length_open_registered:
  assumes "distinct (registered_ws h)"
  shows "length (open_registered h) = length (subscribers h)"
proof -
  have "distinct (filter (\<lambda>s. readyState h s = OPEN) (registered_ws h))"
    using assms by simp
  then have "open_registered h = filter (\<lambda>s. readyState h s = OPEN) (registered_ws h)"
    by (simp add: open_registered_def)
  also have "length \<dots> = length (subscribers h)"
    by (simp add: registered_ws_def subscribers_def filter_map comp_def is_open_def[abs_def])
  finally show ?thesis .
qed

lemma on_close_unbinds:
  assumes "distinct (map fst (connectedClaws h))"
  shows "unbound s (on_close s now h)"
proof (cases "find (\<lambda>e. ws (snd e) = s) (connectedClaws h)")
  case None
  then have "\<forall>e\<in>set (connectedClaws h). ws (snd e) \<noteq> s"
    unfolding find_None_iff by blast
  with None show ?thesis
    by (auto simp: on_close_def handleClawDisconnect_def unbound_def registered_ws_def)
next
  case (Some e)
  let ?h2 = "h\<lparr>readyState := (readyState h)(s := CLOSED),
               connectedClaws := AList.delete (fst e) (connectedClaws h)\<rparr>"
  have d: "distinct (map fst (connectedClaws ?h2))"
    using assms by (simp add: distinct_delete)
  have "on_close s now h = broadcastState now ?h2"
    using Some by (simp add: on_close_def handleClawDisconnect_def)
  then have "connectedClaws (on_close s now h) = subscribers ?h2"
    by (simp add: broadcastState_def broadcast_eq[OF d])
  then show ?thesis
    by (auto simp: unbound_def registered_ws_def subscribers_def is_open_def)
qed

text \<open>After a fan-out pass every entry has an open socket.\<close>

lemma broadcast_all_open:
  assumes "distinct (map fst (connectedClaws h))"
  shows "all_open (broadcast m h)"
  by (simp add: broadcast_eq[OF assms] all_open_def subscribers_def list_all_iff)

lemma frame_summarized_all_open:
  assumes "distinct (map fst (connectedClaws h))"
  shows "all_open (frame_summarized a summ now h)"
proof -
  let ?h1 = "h\<lparr>heap := (heap h)(a := (heap h a)\<lparr>summary := Some summ\<rparr>)\<rparr>"
  have "distinct (map fst (connectedClaws ?h1))" using assms by simp
  from broadcast_all_open[OF this] broadcast_all_open[OF assms] show ?thesis
    by (simp add: frame_summarized_def Let_def)
qed

lemma all_open_touch:
  "list_all (is_open rs) (touch r now es) = list_all (is_open rs) es"
  by (induction es) (simp_all add: is_open_def)

text \<open>
  Unless a socket leaves OPEN behind the hub's back, every handler leaves every entry
  with an open socket.
\<close>

lemma step_all_open:
  assumes "distinct (map fst (connectedClaws h))" and "all_open h" and "\<not> closing ev"
  shows "all_open (step ev h)"
proof (cases ev)
  case (Connection r ip now)
  with assms(2) show ?thesis
    by (auto simp: on_connection_def ws_send_def Let_def all_open_def list_all_iff is_open_def)
next
  case (Message r parsed now)
  show ?thesis
  proof (cases parsed)
    case None
    with Message assms(2) show ?thesis by (simp add: handleClawMessage_def)
  next
    case (Some msg)
    show ?thesis
    proof (cases "accepted_register msg")
      case True
      let ?h2 = "h\<lparr>pendingConnections := AList.delete r (pendingConnections h),
                   connectedClaws :=
                     AList.update (the (in_clawId msg)) (new_claw r msg now h) (connectedClaws h)\<rparr>"
      have "distinct (map fst (connectedClaws ?h2))"
        using assms(1) by (simp add: distinct_update)
      from broadcast_all_open[OF this] show ?thesis
        by (simp add: Message Some handleClawMessage_register[OF True] broadcastState_def)
    next
      case False
      with assms(2) show ?thesis
        by (simp add: Message Some handleClawMessage_other[OF False] ws_send_def all_open_def
              all_open_touch)
    qed
  qed
next
  case (Close r now)
  show ?thesis
  proof (cases "find (\<lambda>e. ws (snd e) = r) (connectedClaws h)")
    case None
    then have "\<forall>e\<in>set (connectedClaws h). ws (snd e) \<noteq> r"
      unfolding find_None_iff by blast
    with None Close assms(2) show ?thesis
      by (auto simp: on_close_def handleClawDisconnect_def all_open_def list_all_iff is_open_def)
  next
    case (Some e)
    let ?h2 = "h\<lparr>readyState := (readyState h)(r := CLOSED),
                 connectedClaws := AList.delete (fst e) (connectedClaws h)\<rparr>"
    have "distinct (map fst (connectedClaws ?h2))"
      using assms(1) by (simp add: distinct_delete)
    from broadcast_all_open[OF this] Close Some show ?thesis
      by (simp add: on_close_def handleClawDisconnect_def broadcastState_def)
  qed
next
  case (SocketClosing r)
  with assms(3) show ?thesis by simp
next
  case (SetStreamLive live now)
  have "distinct (map fst (connectedClaws (h\<lparr>streamStartedAt := t\<rparr>)))" for t
    using assms(1) by simp
  from broadcast_all_open[OF this] broadcast_all_open[OF assms(1)] SetStreamLive
  show ?thesis by (simp add: setStreamLive_def broadcastState_def)
next
  case (BroadcastFrame a now)
  have d: "distinct (map fst (connectedClaws (h\<lparr>currentFrame := Some a\<rparr>)))"
    using assms(1) by simp
  have o: "all_open (h\<lparr>currentFrame := Some a, frameSummarizer := fs, awaiting := w\<rparr>)" for fs w
    using assms(2) by (simp add: all_open_def)
  from frame_summarized_all_open[OF d] broadcast_all_open[OF d] o BroadcastFrame
  show ?thesis by (simp add: broadcastFrame_def summarizeFrame_def Let_def)
next
  case (DescriberSettled outcome now)
  show ?thesis
  proof (cases "awaiting h")
    case None
    with DescriberSettled assms(2) show ?thesis by (simp add: describer_settled_def)
  next
    case (Some a)
    have "distinct (map fst (connectedClaws (h\<lparr>frameSummarizer := fs, awaiting := None\<rparr>)))" for fs
      using assms(1) by simp
    from frame_summarized_all_open[OF this] DescriberSettled Some show ?thesis
      by (cases outcome) (simp_all add: describer_settled_def summarizeFrame_resume_def Let_def)
  qed
next
  case (BroadcastChat c now)
  have "distinct (map fst (connectedClaws (h\<lparr>recentChat := x\<rparr>)))" for x
    using assms(1) by simp
  from broadcast_all_open[OF this] BroadcastChat show ?thesis
    by (simp add: broadcastChatMessage_def Let_def)
next
  case (BroadcastTranscript t now)
  from broadcast_all_open[OF assms(1)] BroadcastTranscript show ?thesis
    by (simp add: broadcastTranscript_def)
qed

lemma run_all_open:
  assumes "distinct (map fst (connectedClaws h))" and "all_open h"
    and "\<forall>ev\<in>set evs. \<not> closing ev"
  shows "all_open (run evs h)"
  using assms
proof (induction evs arbitrary: h)
  case Nil
  then show ?case by simp
next
  case (Cons ev evs)
  from Cons.prems have ev: "\<not> closing ev" and rest: "\<forall>ev\<in>set evs. \<not> closing ev" by simp_all
  from Cons.IH[OF step_distinct_keys[OF Cons.prems(1), of ev]
                  step_all_open[OF Cons.prems(1,2) ev] rest]
  show ?case by simp
qed

lemma all_open_subscribers: "all_open h \<Longrightarrow> subscribers h = connectedClaws h"
  by (simp add: all_open_def subscribers_def list_all_iff)

text \<open>
  C2, as the code has it. In every state a new hub can reach, the registry holds at most
  one entry per id. Handling a socket's close event leaves no entry bound to that socket.
  A fan-out pass removes exactly the entries whose socket is not open: right after a pass
  every entry's socket is open. When no socket registers under two different ids, the
  registry also holds at most one entry per socket, and right after a pass the
  participant count is the number of open sockets that held an entry. When moreover no
  socket leaves OPEN except through its close event, every entry's socket is open and
  the participant count is the number of open sockets that hold an entry, in every
  reachable state.
\<close>

theorem registry_after_fanout:
  assumes "h = run evs (new_VisionBroadcaster apiKey handlers frames)"
  shows "distinct (map fst (connectedClaws h))
    \<and> unbound s (on_close s now h)
    \<and> connectedClaws (broadcast m h) = filter (is_open (readyState h)) (connectedClaws h)
    \<and> (\<forall>e\<in>set (connectedClaws (broadcast m h)). readyState (broadcast m h) (ws (snd e)) = OPEN)
    \<and> ((\<forall>ev\<in>set evs. keeps_id idOf ev) \<longrightarrow>
         distinct (registered_ws h)
         \<and> length (connectedClaws (broadcast m h)) = length (open_registered h)
         \<and> ((\<forall>ev\<in>set evs. \<not> closing ev) \<longrightarrow>
              all_open h \<and> length (connectedClaws h) = length (open_registered h)))"
proof -
  have d: "distinct (map fst (connectedClaws h))"
    unfolding assms by (rule run_distinct_keys) (simp add: new_VisionBroadcaster_def)
  note b = broadcast_eq[OF d, of m]
  have pass: "connectedClaws (broadcast m h) = filter (is_open (readyState h)) (connectedClaws h)"
    by (simp add: b subscribers_def)
  have alive: "\<forall>e\<in>set (connectedClaws (broadcast m h)). readyState (broadcast m h) (ws (snd e)) = OPEN"
    by (simp add: b subscribers_def is_open_def)
  have count: "distinct (registered_ws h)
               \<and> length (connectedClaws (broadcast m h)) = length (open_registered h)
               \<and> ((\<forall>ev\<in>set evs. \<not> closing ev) \<longrightarrow>
                    all_open h \<and> length (connectedClaws h) = length (open_registered h))"
    if k: "\<forall>ev\<in>set evs. keeps_id idOf ev"
  proof -
    have "filed_by idOf (connectedClaws h)"
      unfolding assms
      by (rule run_filed[OF _ k]) (simp add: new_VisionBroadcaster_def filed_by_def)
    from one_entry_per_socket[OF d this] have dw: "distinct (registered_ws h)"
      by (simp add: registered_ws_def)
    note len = length_open_registered[OF dw]
    have quietly: "all_open h \<and> length (connectedClaws h) = length (open_registered h)"
      if c: "\<forall>ev\<in>set evs. \<not> closing ev"
    proof -
      have "all_open h"
        unfolding assms
        by (rule run_all_open[OF _ _ c]) (simp_all add: new_VisionBroadcaster_def all_open_def)
      with len all_open_subscribers[of h] show ?thesis by simp
    qed
    from dw len quietly show ?thesis by (simp add: b)
  qed
  from d on_close_unbinds[OF d, of s now] pass alive count show ?thesis by blast
qed

theorem registry_after_fanout_witness:
  "length (connectedClaws (run ex_two_sockets ex_hub)) = 2
   \<and> length (connectedClaws (broadcast ex_message (run ex_two_sockets ex_hub))) = 1
   \<and> open_registered (run ex_two_sockets ex_hub) = [8]
   \<and> length (connectedClaws (run ex_two_open ex_hub)) = 1
   \<and> open_registered (run ex_two_open ex_hub) = [8]"
proof -
  let ?idOf = "\<lambda>s::nat. if s = 7 then ''a'' else ''b''"
  have k: "\<forall>ev\<in>set ex_two_sockets. keeps_id ?idOf ev"
    by (simp add: ex_two_sockets_def ex_register_def)
  have k': "\<forall>ev\<in>set ex_two_open. keeps_id ?idOf ev"
    by (simp add: ex_two_open_def ex_register_def)
  have c': "\<forall>ev\<in>set ex_two_open. \<not> closing ev"
    by (simp add: ex_two_open_def)
  have two: "length (connectedClaws (run ex_two_sockets ex_hub)) = 2"
    and op: "open_registered (run ex_two_sockets ex_hub) = [8]"
    and op': "open_registered (run ex_two_open ex_hub) = [8]"
    by (simp_all add: ex_two_sockets_def ex_two_open_def open_registered_def registered_ws_def
          ex_defs eval_defs)
  have h: "run ex_two_sockets ex_hub
             = run ex_two_sockets (new_VisionBroadcaster False [] (\<lambda>a. ex_frame))"
    and h': "run ex_two_open ex_hub
             = run ex_two_open (new_VisionBroadcaster False [] (\<lambda>a. ex_frame))"
    by (simp_all add: ex_hub_def)
  from registry_after_fanout[OF h, of 7 0 ex_message ?idOf] k
  have A: "length (connectedClaws (broadcast ex_message (run ex_two_sockets ex_hub)))
          = length (open_registered (run ex_two_sockets ex_hub))"
    by blast
  from registry_after_fanout[OF h', of 7 0 ex_message ?idOf] k' c'
  have B: "length (connectedClaws (run ex_two_open ex_hub))
          = length (open_registered (run ex_two_open ex_hub))"
    by blast
  from two op op' A B show ?thesis by simp
qed

text \<open>
  The claim as it is written fails: one socket that registers under two ids holds two
  entries, so there are two participants and one open connection.
\<close>

theorem registry_count_counterexample:
  "length (connectedClaws ex_two_ids) = 2 \<and> card {s. readyState ex_two_ids s = OPEN} = 1"
proof -
  have "{s. readyState ex_two_ids s = OPEN} = {7}"
    by (auto simp: ex_two_ids_def ex_defs eval_defs split: if_splits)
  moreover have "length (connectedClaws ex_two_ids) = 2"
    by (simp add: ex_two_ids_def ex_defs eval_defs)
  ultimately show ?thesis by simp
qed

section \<open>Single flight and fallback of the summarizer\<close>

lemma summ_step_keeps_enabled:
  "enabled (snd (summ_step ev fs)) = enabled fs \<and> anthropic (snd (summ_step ev fs)) = anthropic fs"
  by (cases ev)
     (simp_all add: summarizeFrame_def summarizeFrame_resume_def Let_def split: sum.splits)

lemma summ_run_Cons:
  "fst (summ_run (ev # evs) fs)
     = fst (summ_step ev fs) @ fst (summ_run evs (snd (summ_step ev fs)))"
  by (simp split: prod.splits)

lemma summ_run_fallback:
  assumes "enabled fs" and "anthropic fs"
  shows "single_flight_fallback (isSummarizing fs) (lastSummary fs) (fst (summ_run evs fs))"
  using assms
proof (induction evs arbitrary: fs)
  case Nil
  show ?case by simp
next
  case (Cons ev evs)
  let ?fs = "snd (summ_step ev fs)"
  from Cons.prems summ_step_keeps_enabled[of ev fs]
  have en: "enabled ?fs" "anthropic ?fs" by simp_all
  note IH = Cons.IH[OF en]
  show ?case
  proof (cases ev)
    case Call
    show ?thesis
    proof (cases "isSummarizing fs")
      case True
      with Call Cons.prems have "summ_step ev fs = ([Immediate (lastSummary fs)], fs)"
        by (simp add: summarizeFrame_def)
      with IH True show ?thesis by (simp add: summ_run_Cons del: summ_run.simps)
    next
      case False
      with Call Cons.prems have "summ_step ev fs = ([Sent], fs\<lparr>isSummarizing := True\<rparr>)"
        by (simp add: summarizeFrame_def)
      with IH False show ?thesis by (simp add: summ_run_Cons del: summ_run.simps)
    qed
  next
    case (Settle outcome)
    show ?thesis
    proof (cases "isSummarizing fs")
      case False
      with Settle have "summ_step ev fs = ([], fs)" by simp
      with IH show ?thesis by (simp add: summ_run_Cons del: summ_run.simps)
    next
      case True
      show ?thesis
      proof (cases outcome)
        case (Inl err)
        with Settle True
        have "summ_step ev fs
                = ([Completed (Inl err) (Inr (lastSummary fs))], fs\<lparr>isSummarizing := False\<rparr>)"
          by (simp add: summarizeFrame_resume_def)
        with IH True show ?thesis by (simp add: summ_run_Cons del: summ_run.simps)
      next
        case (Inr blocks)
        with Settle True
        have "summ_step ev fs
                = ([Completed (Inr blocks) (Inr (first_text blocks))],
                   fs\<lparr>lastSummary := first_text blocks, isSummarizing := False\<rparr>)"
          by (simp add: summarizeFrame_resume_def Let_def)
        with IH True show ?thesis by (simp add: summ_run_Cons del: summ_run.simps)
      qed
    qed
  qed
qed

text \<open>
  C4. However an enabled summarizer is called and however its requests settle, what is
  seen of it is single flight with fallback: a request is sent only when none is in
  flight, a call that arrives while one is in flight is answered at once with the last
  successful summary, and a call whose request fails is answered with the last
  successful summary, never with an error. For the two functions themselves: a call
  during a flight returns \<open>lastSummary\<close> and leaves the summarizer as it is, so no new
  request starts; a failed request resolves to \<open>lastSummary\<close> and ends the flight.
\<close>

theorem summarizer_single_flight_fallback:
  "single_flight_fallback False '''' (fst (summ_run evs (new_FrameSummarizer True)))
   \<and> (enabled fs \<and> anthropic fs \<and> isSummarizing fs
        \<longrightarrow> summarizeFrame fs = (Resolved (lastSummary fs), fs))
   \<and> summarizeFrame_resume (Inl err) fs = (Inr (lastSummary fs), fs\<lparr>isSummarizing := False\<rparr>)"
proof -
  have "single_flight_fallback (isSummarizing (new_FrameSummarizer True))
          (lastSummary (new_FrameSummarizer True))
          (fst (summ_run evs (new_FrameSummarizer True)))"
    by (rule summ_run_fallback) (simp_all add: new_FrameSummarizer_def)
  then show ?thesis
    by (simp add: new_FrameSummarizer_def summarizeFrame_def summarizeFrame_resume_def)
qed

theorem summarizer_single_flight_fallback_witness:
  "fst (summ_run ex_calls (new_FrameSummarizer True))
     = [Sent, Immediate '''',
        Completed (Inr [TextBlock ''A desk.'']) (Inr ''A desk.''),
        Sent, Immediate ''A desk.'',
        Completed (Inl DescriberError) (Inr ''A desk.''),
        Sent]
   \<and> single_flight_fallback False '''' (fst (summ_run ex_calls (new_FrameSummarizer True)))
   \<and> summarizeFrame
        \<lparr>anthropic = True, enabled = True, isSummarizing = True, lastSummary = ''A desk.''\<rparr>
       = (Resolved ''A desk.'',
          \<lparr>anthropic = True, enabled = True, isSummarizing = True, lastSummary = ''A desk.''\<rparr>)"
proof -
  note th = summarizer_single_flight_fallback
    [of ex_calls
        "\<lparr>anthropic = True, enabled = True, isSummarizing = True, lastSummary = ''A desk.''\<rparr>"]
  have A: "fst (summ_run ex_calls (new_FrameSummarizer True))
     = [Sent, Immediate '''',
        Completed (Inr [TextBlock ''A desk.'']) (Inr ''A desk.''),
        Sent, Immediate ''A desk.'',
        Completed (Inl DescriberError) (Inr ''A desk.''),
        Sent]"
    by (simp add: ex_calls_def new_FrameSummarizer_def summarizeFrame_def
          summarizeFrame_resume_def Let_def)
  have B: "single_flight_fallback False '''' (fst (summ_run ex_calls (new_FrameSummarizer True)))"
    using th by blast
  have C: "summarizeFrame
        \<lparr>anthropic = True, enabled = True, isSummarizing = True, lastSummary = ''A desk.''\<rparr>
       = (Resolved ''A desk.'',
          \<lparr>anthropic = True, enabled = True, isSummarizing = True, lastSummary = ''A desk.''\<rparr>)"
    using th by simp
  from A B C show ?thesis by (intro conjI)
qed

section \<open>Flushing the transcript buffer\<close>

lemma call_transcript_handlers_eq:
  "call_transcript_handlers ks t c = c\<lparr>emitted := emitted c @ map (\<lambda>k. (k, t)) ks\<rparr>"
  by (induction ks arbitrary: c) simp_all

lemma trim_fragment: "fragment f \<Longrightarrow> trim f = f"
  by (cases f) (auto simp: fragment_def trim_def dropWhile_eq_self_iff simp flip: hd_rev)

lemma last_dropWhile: "dropWhile P xs \<noteq> [] \<Longrightarrow> last (dropWhile P xs) = last xs"
  by (induction xs) (auto split: if_splits)

lemma fragment_trim:
  assumes "trim s \<noteq> []"
  shows "fragment (trim s)"
proof -
  let ?u = "dropWhile is_space s"
  let ?v = "dropWhile is_space (rev ?u)"
  from assms have v: "?v \<noteq> []" by (simp add: trim_def)
  have u: "?u \<noteq> []"
  proof
    assume e: "?u = []"
    have "?v = dropWhile is_space (rev [])" by (simp only: e)
    with v show False by simp
  qed
  have "\<not> is_space (hd ?v)" using v by (rule hd_dropWhile)
  then have l: "\<not> is_space (last (trim s))" by (simp add: trim_def last_rev)
  have "last ?v = last (rev ?u)" using v by (rule last_dropWhile)
  also have "\<dots> = hd ?u" by (simp add: last_rev)
  finally have "hd (trim s) = hd ?u" by (simp add: trim_def hd_rev)
  moreover have "\<not> is_space (hd ?u)" using u by (rule hd_dropWhile)
  ultimately show ?thesis using assms l by (simp add: fragment_def)
qed

lemma join_fragments:
  assumes "fs \<noteq> []" and "\<forall>f\<in>set fs. fragment f"
  shows "join sep fs \<noteq> [] \<and> hd (join sep fs) = hd (hd fs) \<and> last (join sep fs) = last (last fs)"
  using assms
proof (induction sep fs rule: join.induct)
  case (3 sep x y ys)
  then show ?case by (auto simp: fragment_def)
qed (simp_all add: fragment_def)

lemma fragment_join:
  assumes "fs \<noteq> []" and "\<forall>f\<in>set fs. fragment f"
  shows "fragment (join sep fs)"
proof -
  from assms have "fragment (hd fs)" and "fragment (last fs)" by simp_all
  with join_fragments[OF assms, of sep] show ?thesis by (simp add: fragment_def)
qed

text \<open>
  What \<open>flushBuffer\<close> does to a buffer of fragments: the fragments are joined with single
  spaces, every handler is called once with that text and the time of the flush, the
  buffer is emptied and the timer handle is dropped. The timers the event loop has armed
  are as they were.
\<close>

lemma flushBuffer_fragments:
  assumes "transcriptBuffer c \<noteq> []" and "\<forall>f\<in>set (transcriptBuffer c). fragment f"
  shows "flushBuffer now c
           = c\<lparr>transcriptBuffer := [], bufferTimeout := None,
               emitted := emitted c @
                 map (\<lambda>k. (k, \<lparr>t_text = join '' '' (transcriptBuffer c), t_timestamp = now\<rparr>))
                   (transcript_handlers c)\<rparr>"
proof -
  note fj = fragment_join[OF assms, of "'' ''"]
  from fj have "trim (join '' '' (transcriptBuffer c)) = join '' '' (transcriptBuffer c)"
    by (rule trim_fragment)
  moreover from fj have "join '' '' (transcriptBuffer c) \<noteq> []" by (simp add: fragment_def)
  ultimately show ?thesis
    using assms(1) by (simp add: flushBuffer_def Let_def call_transcript_handlers_eq)
qed

lemma flushBuffer_timers: "timers (flushBuffer now c) = timers c"
  by (simp add: flushBuffer_def Let_def call_transcript_handlers_eq)

lemma flushBuffer_buffer:
  "transcriptBuffer (flushBuffer now c) = [] \<and> bufferTimeout (flushBuffer now c)
     = (if transcriptBuffer c = [] then bufferTimeout c else None)"
  by (simp add: flushBuffer_def Let_def call_transcript_handlers_eq)

text \<open>Only fragments enter the buffer.\<close>

lemma isValidTranscript_nonempty:
  assumes "isValidTranscript txt"
  shows "trim txt \<noteq> []"
proof
  assume "trim txt = []"
  then have "length (trim txt) = 0" by simp
  then have "\<not> isValidTranscript txt"
    by (simp only: isValidTranscript_def Let_def if_True simp_thms)
  with assms show False by simp
qed

lemma addToBuffer_buffer:
  "set (transcriptBuffer (addToBuffer txt now c)) \<subseteq> insert txt (set (transcriptBuffer c))"
  by (simp add: addToBuffer_def Let_def flushBuffer_buffer set_timeout_def clear_timeout_def
        split: option.splits)

lemma trim_Nil: "trim [] = []"
  by (simp add: trim_def)

lemma coalescer_step_fragments:
  assumes "\<forall>f\<in>set (transcriptBuffer c). fragment f"
  shows "\<forall>f\<in>set (transcriptBuffer (coalescer_step ev c)). fragment f"
proof (cases ev)
  case (Transcribed response now)
  show ?thesis
  proof (cases "isValidTranscript (trim response)")
    case True
    have "trim response \<noteq> []"
    proof
      assume e: "trim response = []"
      have "trim (trim response) = []" by (simp only: e trim_Nil)
      with isValidTranscript_nonempty[OF True] show False by (rule notE)
    qed
    then have frag: "fragment (trim response)" by (rule fragment_trim)
    have st: "coalescer_step ev c = addToBuffer (trim response) now c"
      using True by (simp add: Transcribed transcribed_def Let_def)
    from assms frag addToBuffer_buffer[of "trim response" now c] show ?thesis
      unfolding st by blast
  next
    case False
    with assms Transcribed show ?thesis by (simp add: transcribed_def)
  qed
next
  case (TimerFired t now)
  with assms show ?thesis by (simp add: timer_fired_def flushBuffer_buffer)
qed

lemma coalescer_run_fragments:
  "\<forall>f\<in>set (transcriptBuffer c). fragment f
     \<Longrightarrow> \<forall>f\<in>set (transcriptBuffer (coalescer_run evs c)). fragment f"
proof (induction evs arbitrary: c)
  case Nil
  then show ?case by simp
next
  case (Cons ev evs)
  from Cons.IH[OF coalescer_step_fragments[OF Cons.prems, of ev]] show ?case by simp
qed

text \<open>
  The forced flush of \<open>addToBuffer\<close>: the buffer is emptied and the handle dropped, and
  every timer that was armed is armed still, the pending debounce timer among them.
\<close>

lemma forced_flush_keeps_timers:
  assumes "transcriptBuffer c \<noteq> []" and "now - bufferStartTime c \<ge> MAX_BUFFER_TIME_MS"
  shows "timers (addToBuffer txt now c) = timers c
         \<and> bufferTimeout (addToBuffer txt now c) = None
         \<and> transcriptBuffer (addToBuffer txt now c) = []"
  using assms by (simp add: addToBuffer_def Let_def flushBuffer_timers flushBuffer_buffer)

lemma flush_hello_world:
  "emitted (coalescer_run [Transcribed ''hello'' 0, Transcribed ''world'' 400, TimerFired 1 1400]
              (new_Coalescer [0]))
     = [(0, \<lparr>t_text = ''hello world'', t_timestamp = 1400\<rparr>)]"
  by (simp add: new_Coalescer_def transcribed_def isValidTranscript_def trim_def is_space_def
        toLowerCase_def addToBuffer_def flushBuffer_def timer_fired_def set_timeout_def
        clear_timeout_def BUFFER_DELAY_MS_def MAX_BUFFER_TIME_MS_def Let_def)

text \<open>
  C5 at a failing input. Five fragments arrive 900 ms apart, so the fifth finds the
  buffer 3600 ms old and \<open>addToBuffer\<close> flushes it by force. The flush joins the
  fragments, empties the buffer and drops the timer handle, but the debounce timer the
  fourth fragment armed (handle 3, due at 3700) stays armed. A fragment that arrives at
  3650 is then flushed by that timer at 3700, 50 ms after it came.
\<close>

theorem flush_leaves_timer_armed:
  "emitted (coalescer_run ex_continuous (new_Coalescer [0]))
     = [(0, \<lparr>t_text = ''a b c d e'', t_timestamp = 3600\<rparr>)]
   \<and> transcriptBuffer (coalescer_run ex_continuous (new_Coalescer [0])) = []
   \<and> bufferTimeout (coalescer_run ex_continuous (new_Coalescer [0])) = None
   \<and> timers (coalescer_run ex_continuous (new_Coalescer [0])) = [(3, 3700)]
   \<and> emitted (coalescer_run (ex_continuous @ [Transcribed ''f'' 3650, TimerFired 3 3700])
                (new_Coalescer [0]))
     = [(0, \<lparr>t_text = ''a b c d e'', t_timestamp = 3600\<rparr>),
        (0, \<lparr>t_text = ''f'', t_timestamp = 3700\<rparr>)]"
  by (simp add: ex_continuous_def new_Coalescer_def transcribed_def isValidTranscript_def
        trim_def is_space_def toLowerCase_def addToBuffer_def flushBuffer_def timer_fired_def
        set_timeout_def clear_timeout_def BUFFER_DELAY_MS_def MAX_BUFFER_TIME_MS_def Let_def)

text \<open>\<open>stop\<close> does disarm the pending timer before it drops the handle.\<close>

lemma stop_disarms_timer:
  "bufferTimeout c = Some t
     \<Longrightarrow> t \<notin> fst ` set (timers (stop_buffer_timer c)) \<and> bufferTimeout (stop_buffer_timer c) = None"
  by (auto simp: stop_buffer_timer_def clear_timeout_def)

section \<open>Stopping the capture supervisors\<close>

lemma kill_all_exited: "exited (kill_all pids ps pid) = exited (ps pid)"
  by (induction pids arbitrary: ps) (simp_all add: kill_def)

lemma kill_all_killed: "killed (ps pid) \<Longrightarrow> kill_all pids ps pid = ps pid"
proof (induction pids arbitrary: ps)
  case Nil
  show ?case by simp
next
  case (Cons r pids)
  let ?ps = "if \<not> killed (ps r) then ps(r := kill SIGTERM (ps r)) else ps"
  have same: "?ps pid = ps pid" using Cons.prems by (cases "r = pid") simp_all
  then have "killed (?ps pid)" using Cons.prems by simp
  with Cons.IH[of ?ps] same show ?case by simp
qed

lemma kill_all_received:
  "received (kill_all pids ps pid) = received (ps pid)
   \<or> received (kill_all pids ps pid) = received (ps pid) @ [SIGTERM]"
proof (induction pids arbitrary: ps)
  case Nil
  show ?case by simp
next
  case (Cons q pids)
  show ?case
  proof (cases "\<not> killed (ps q) \<and> q = pid \<and> \<not> exited (ps q)")
    case True
    let ?ps = "ps(q := kill SIGTERM (ps q))"
    have k: "killed (?ps pid)" using True by (auto simp: kill_def)
    from kill_all_killed[of ?ps pid pids] k True show ?thesis by (auto simp: kill_def)
  next
    case False
    then have "received ((if \<not> killed (ps q) then ps(q := kill SIGTERM (ps q)) else ps) pid)
                 = received (ps pid)"
      by (auto simp: kill_def)
    with Cons.IH[of "if \<not> killed (ps q) then ps(q := kill SIGTERM (ps q)) else ps"]
    show ?thesis by simp
  qed
qed

text \<open>
  The video supervisor's \<open>stop\<close> observes no exit and escalates nothing: whether a
  process has exited is the same after it as before, and a process is sent at most one
  SIGTERM by it.
\<close>

lemma sc_stop_waits_for_nothing:
  "exited (sc_procs (sc_stop c) pid) = exited (sc_procs c pid)
   \<and> (received (sc_procs (sc_stop c) pid) = received (sc_procs c pid)
      \<or> received (sc_procs (sc_stop c) pid) = received (sc_procs c pid) @ [SIGTERM])"
  using kill_all_received[of "sc_activeProcesses c" "sc_procs c" pid]
  by (simp add: sc_stop_def kill_all_exited)

text \<open>
  In the audio supervisor the 2 second timer never escalates once the SIGTERM has been
  delivered: delivery has set \<open>killed\<close>, which the timer takes for the process's end.
\<close>

lemma kp_force_after_term:
  assumes "\<not> killed (proc k)" and "exitCode (proc k) = None" and "\<not> exited (proc k)"
  shows "kp_force (killProcess pid k) = killProcess pid k"
  using assms by (simp add: kp_force_def killProcess_def kill_def)

text \<open>
  C3 at failing inputs. The video supervisor tracks one running process: \<open>stop\<close> returns
  with the tracking set empty, the process sent one SIGTERM and not exited. The audio
  supervisor tracks one running process that does not exit on SIGTERM: after
  \<open>killProcess\<close>, the 2 second timer and the 3 second timer, the promise \<open>stop\<close> awaits
  is resolved and the tracking set is empty, while the process has been sent SIGTERM only
  and has not exited.
\<close>

theorem stop_returns_before_exit:
  "sc_activeProcesses (sc_stop ex_capture) = []
   \<and> \<not> exited (sc_procs (sc_stop ex_capture) 41)
   \<and> received (sc_procs (sc_stop ex_capture) 41) = [SIGTERM]
   \<and> resolved (kp_cap 41 (kp_force (killProcess 41 ex_kill)))
   \<and> ac_activeProcesses (kp_cap 41 (kp_force (killProcess 41 ex_kill))) = []
   \<and> \<not> exited (proc (kp_cap 41 (kp_force (killProcess 41 ex_kill))))
   \<and> received (proc (kp_cap 41 (kp_force (killProcess 41 ex_kill)))) = [SIGTERM]"
  by (simp add: ex_capture_def ex_kill_def ex_running_def sc_stop_def kill_def killProcess_def
        kp_force_def kp_cap_def kp_cleanup_def)

end
